theory Spec2Isabelle
  imports Main
begin

section \<open>Python strings\<close>

text \<open>
  Strings are lists of bytes.  The case conversions of the source (\<open>str.lower\<close>,
  \<open>str.capitalize\<close>, \<open>str.title\<close>) are modelled on the ASCII letters, which is what every
  literal of the source consists of.
\<close>

definition ascii_uppercase :: string where
  "ascii_uppercase = ''ABCDEFGHIJKLMNOPQRSTUVWXYZ''"

definition ascii_lowercase :: string where
  "ascii_lowercase = ''abcdefghijklmnopqrstuvwxyz''"

definition lower_char :: "char \<Rightarrow> char" where
  "lower_char c =
     (case map_of (zip ascii_uppercase ascii_lowercase) c of Some d \<Rightarrow> d | None \<Rightarrow> c)"

definition upper_char :: "char \<Rightarrow> char" where
  "upper_char c =
     (case map_of (zip ascii_lowercase ascii_uppercase) c of Some d \<Rightarrow> d | None \<Rightarrow> c)"

definition is_cased :: "char \<Rightarrow> bool" where
  "is_cased c \<longleftrightarrow> c \<in> set ascii_uppercase \<or> c \<in> set ascii_lowercase"

definition lower :: "string \<Rightarrow> string" where
  "lower s = map lower_char s"

text \<open>\<open>str.capitalize\<close>: first character upper case, the rest lower case.\<close>

fun capitalize :: "string \<Rightarrow> string" where
  "capitalize [] = []"
| "capitalize (c # cs) = upper_char c # map lower_char cs"

text \<open>
  \<open>str.title\<close>: a cased character is upper-cased when the previous character is not
  cased, and lower-cased otherwise.
\<close>

fun title_from :: "bool \<Rightarrow> string \<Rightarrow> string" where
  "title_from prev [] = []"
| "title_from prev (c # cs) =
     (if is_cased c then (if prev then lower_char c else upper_char c) # title_from True cs
      else c # title_from False cs)"

definition title :: "string \<Rightarrow> string" where
  "title s = title_from False s"

text \<open>\<open>sep.join(xs)\<close>.\<close>

fun join :: "string \<Rightarrow> string list \<Rightarrow> string" where
  "join sep [] = []"
| "join sep [x] = x"
| "join sep (x # y # ys) = x @ sep @ join sep (y # ys)"

text \<open>The double-quoted path that starts every nircmd command line: \<open>f'"{self.nircmd}"'\<close>.\<close>

definition quoted :: "string \<Rightarrow> string" where
  \<open>quoted p = ''"'' @ p @ ''"''\<close>

section \<open>Errors and dictionaries\<close>

datatype error =
    KeyError string
  | AttributeError string
  | ValueError string
  | TypeError string
  | Exception string

text \<open>\<open>d[k]\<close> on a dictionary given as an association list; a missing key raises.\<close>

definition dict_get :: "(string \<times> 'a) list \<Rightarrow> string \<Rightarrow> error + 'a" where
  "dict_get d k = (case map_of d k of None \<Rightarrow> Inl (KeyError k) | Some v \<Rightarrow> Inr v)"

text \<open>\<open>[d[k] for k in ks]\<close>: the first missing key raises.\<close>

fun dict_get_all :: "(string \<times> 'a) list \<Rightarrow> string list \<Rightarrow> error + 'a list" where
  "dict_get_all d [] = Inr []"
| "dict_get_all d (k # ks) =
     (case dict_get d k of
        Inl e \<Rightarrow> Inl e
      | Inr v \<Rightarrow> (case dict_get_all d ks of Inl e \<Rightarrow> Inl e | Inr vs \<Rightarrow> Inr (v # vs)))"

definition MODIFIER_MAP :: "(string \<times> string) list" where
  "MODIFIER_MAP = [(''alt'', ''alt''), (''ctrl'', ''leftctrl''), (''shift'', ''leftshift'')]"

section \<open>Configuration\<close>

text \<open>
  \<open>Config.__init__\<close> sets one attribute per key of \<open>Config.DEFAULTS\<close>, so these are the
  attributes of a configuration object.  The fields carry the types of the defaults.
\<close>

record Config =
  USERNAME :: string
  PASSWORD :: string
  SECRET_KEY :: string
  HOST :: string
  PORT :: int
  DEBUG :: bool
  LOGGING_ENABLED :: bool
  SESSION_TIMEOUT_MINUTES :: int
  MAX_REQUESTS_PER_MINUTE :: int
  PLAYBACK_DEVICE_1 :: string
  PLAYBACK_DEVICE_2 :: string
  RECORDING_DEVICE_1 :: string

datatype cval = CStr string | CInt int | CBool bool | CClass string

text \<open>
  The attributes by name: the twelve keys of \<open>DEFAULTS\<close>, set on the instance, and
  the attributes of the class (five paths and \<open>DEFAULTS\<close> itself; no modelled code reads
  their values, so \<open>CClass\<close> only records which one was read).  Any other name raises
  \<open>AttributeError\<close>.
\<close>

definition Config_attributes :: "Config \<Rightarrow> (string \<times> cval) list" where
  "Config_attributes c =
     [(''USERNAME'', CStr (USERNAME c)),
      (''PASSWORD'', CStr (PASSWORD c)),
      (''SECRET_KEY'', CStr (SECRET_KEY c)),
      (''HOST'', CStr (HOST c)),
      (''PORT'', CInt (PORT c)),
      (''DEBUG'', CBool (DEBUG c)),
      (''LOGGING_ENABLED'', CBool (LOGGING_ENABLED c)),
      (''SESSION_TIMEOUT_MINUTES'', CInt (SESSION_TIMEOUT_MINUTES c)),
      (''MAX_REQUESTS_PER_MINUTE'', CInt (MAX_REQUESTS_PER_MINUTE c)),
      (''PLAYBACK_DEVICE_1'', CStr (PLAYBACK_DEVICE_1 c)),
      (''PLAYBACK_DEVICE_2'', CStr (PLAYBACK_DEVICE_2 c)),
      (''RECORDING_DEVICE_1'', CStr (RECORDING_DEVICE_1 c))]"

definition class_attributes :: "string list" where
  "class_attributes =
     [''BASE_DIR'', ''APP_DATA_DIR'', ''STATIC_DIR'', ''CONFIG_FILE'', ''LOG_FILE'', ''DEFAULTS'']"

definition Config_getattr :: "Config \<Rightarrow> string \<Rightarrow> error + cval" where
  "Config_getattr c name =
     (case map_of (Config_attributes c) name of
        Some v \<Rightarrow> Inr v
      | None \<Rightarrow>
          if name \<in> set class_attributes then Inr (CClass name)
          else Inl (AttributeError name))"

text \<open>\<open>Config.DEFAULTS\<close>; the two device names come from the sound system.\<close>

definition DEFAULTS :: "string \<Rightarrow> string \<Rightarrow> Config" where
  "DEFAULTS out_dev in_dev =
     \<lparr> USERNAME = ''admin'', PASSWORD = ''password'', SECRET_KEY = ''your-secret-key'',
       HOST = ''0.0.0.0'', PORT = 5000, DEBUG = False, LOGGING_ENABLED = True,
       SESSION_TIMEOUT_MINUTES = 30, MAX_REQUESTS_PER_MINUTE = 120,
       PLAYBACK_DEVICE_1 = out_dev, PLAYBACK_DEVICE_2 = ''HeadPhone'',
       RECORDING_DEVICE_1 = in_dev \<rparr>"

section \<open>The state of the remote control\<close>

text \<open>
  Time stamps (\<open>datetime\<close>) are microseconds counted from \<open>datetime.min\<close>; a
  \<open>timedelta\<close> is a number of microseconds.
\<close>

type_synonym datetime = int

definition datetime_min :: datetime where
  "datetime_min = 0"

definition seconds :: "int \<Rightarrow> int" where
  "seconds n = n * 1000000"

definition minutes :: "int \<Rightarrow> int" where
  "minutes n = n * 60000000"

record AppDescriptor =
  exe :: string
  process_name :: string
  cmd :: string
  closable :: bool

text \<open>
  A \<open>threading.Timer\<close> that has been started is waiting for its interval, running its
  function, cancelled before it fired, or finished.  The timer objects live in a store
  indexed by creation order; \<open>modifier_key_timer\<close> holds an index into it.
\<close>

datatype timer_status = Waiting | Running | Cancelled | Finished

text \<open>What the program does to the outside world, in order.\<close>

datatype event =
    Exec string
  | Popen string
  | SetMasterVolumeLevelScalar int

record PCRemoteControl =
  config :: Config
  nircmd :: string
  running_apps_cache :: "string set"
  last_cache_update :: datetime
  cache_ttl :: int
  app_enabled :: bool
  request_counts :: "(string \<times> datetime list) list"
  modifier_key_timer :: "nat option"
  active_modifier :: "string option"
  active_modifiers :: "string list"
  apps :: "(string \<times> AppDescriptor) list"
  timers :: "timer_status list"
  trace :: "event list"

text \<open>
  \<open>active_modifiers\<close> is a Python set.  It is kept as a list without repetitions, whose
  order stands for the iteration order of the set (which Python leaves open); the
  theorems below speak about its elements only.
\<close>

definition define_apps :: "string \<Rightarrow> string \<Rightarrow> (string \<times> AppDescriptor) list" where
  "define_apps discord_cmd steam_cmd =
     [(''discord'', \<lparr> exe = ''Discord.exe'', process_name = ''discord.exe'',
                      cmd = discord_cmd, closable = True \<rparr>),
      (''steam'', \<lparr> exe = ''steam.exe'', process_name = ''steam.exe'',
                    cmd = steam_cmd, closable = True \<rparr>),
      (''npp'', \<lparr> exe = ''notepad++.exe'', process_name = ''notepad++.exe'',
                  cmd = ''start notepad++'', closable = True \<rparr>),
      (''chrome'', \<lparr> exe = ''chrome.exe'', process_name = ''chrome.exe'',
                     cmd = ''start chrome'', closable = True \<rparr>),
      (''mediaplayer'', \<lparr> exe = ''mediaplayer.exe'', process_name = ''mediaplayer.exe'',
                          cmd = ''start mediaplayer'', closable = True \<rparr>),
      (''task_manager'', \<lparr> exe = ''Taskmgr.exe'', process_name = ''taskmgr.exe'',
                           cmd = ''taskmgr'', closable = False \<rparr>)]"

text \<open>
  \<open>PCRemoteControl.__init__\<close>.  The configuration, the path of nircmd and the two
  command lines that depend on the home directory are given by the environment.
\<close>

definition init :: "Config \<Rightarrow> string \<Rightarrow> string \<Rightarrow> string \<Rightarrow> PCRemoteControl" where
  "init cfg nircmd_path discord_cmd steam_cmd =
     \<lparr> config = cfg,
       nircmd = nircmd_path,
       running_apps_cache = {},
       last_cache_update = datetime_min,
       cache_ttl = seconds 2,
       app_enabled = True,
       request_counts = [],
       modifier_key_timer = None,
       active_modifier = None,
       active_modifiers = [],
       apps = define_apps discord_cmd steam_cmd,
       timers = [],
       trace = [] \<rparr>"

section \<open>Command execution\<close>

text \<open>
  \<open>_execute_command\<close> runs a command line and returns whether it exited with status 0;
  every exception (a timeout too) is caught and gives \<open>False\<close>.  The parameter \<open>ex\<close> is
  the host: it says which command lines succeed.
\<close>

definition execute_command ::
  "(string \<Rightarrow> bool) \<Rightarrow> string \<Rightarrow> PCRemoteControl \<Rightarrow> bool \<times> PCRemoteControl" where
  "execute_command ex command s = (ex command, s\<lparr>trace := trace s @ [Exec command]\<rparr>)"

section \<open>Timers\<close>

definition is_alive :: "nat \<Rightarrow> timer_status list \<Rightarrow> bool" where
  "is_alive t ts \<longleftrightarrow> t < length ts \<and> (ts ! t = Waiting \<or> ts ! t = Running)"

text \<open>\<open>Timer.cancel\<close> stops a timer that is still waiting and does nothing otherwise.\<close>

definition timer_cancel :: "nat \<Rightarrow> timer_status list \<Rightarrow> timer_status list" where
  "timer_cancel t ts = (if t < length ts \<and> ts ! t = Waiting then ts[t := Cancelled] else ts)"

text \<open>
  \<open>if self.modifier_key_timer and self.modifier_key_timer.is_alive():
  self.modifier_key_timer.cancel()\<close>
\<close>

definition cancel_modifier_timer :: "PCRemoteControl \<Rightarrow> PCRemoteControl" where
  "cancel_modifier_timer s =
     (case modifier_key_timer s of
        None \<Rightarrow> s
      | Some t \<Rightarrow> if is_alive t (timers s) then s\<lparr>timers := timer_cancel t (timers s)\<rparr> else s)"

text \<open>
  \<open>self.modifier_key_timer = threading.Timer(4.1, self._clear_modifier_state);
  self.modifier_key_timer.start()\<close>
\<close>

definition start_modifier_timer :: "PCRemoteControl \<Rightarrow> PCRemoteControl" where
  "start_modifier_timer s =
     s\<lparr>modifier_key_timer := Some (length (timers s)), timers := timers s @ [Waiting]\<rparr>"

section \<open>The modifier keys\<close>

record response =
  success :: bool
  message :: string
  activeModifiers :: "string list option"
  running :: "bool option"

text \<open>The loop of \<open>_clear_modifier_state\<close> that sends a key-up for every held modifier.\<close>

fun release_keys ::
  "(string \<Rightarrow> bool) \<Rightarrow> string list \<Rightarrow> PCRemoteControl \<Rightarrow> (error + unit) \<times> PCRemoteControl" where
  "release_keys ex [] s = (Inr (), s)"
| "release_keys ex (m # ms) s =
     (case dict_get MODIFIER_MAP m of
        Inl e \<Rightarrow> (Inl e, s)
      | Inr k \<Rightarrow>
          release_keys ex ms
            (snd (execute_command ex (quoted (nircmd s) @ '' sendkey '' @ k @ '' up'') s)))"

definition clear_modifier_state ::
  "(string \<Rightarrow> bool) \<Rightarrow> PCRemoteControl \<Rightarrow> (error + unit) \<times> PCRemoteControl" where
  "clear_modifier_state ex s =
     (case release_keys ex (active_modifiers s) s of
        (Inl e, s1) \<Rightarrow> (Inl e, s1)
      | (Inr u, s1) \<Rightarrow>
          (Inr (), (cancel_modifier_timer s1)\<lparr>active_modifiers := [], modifier_key_timer := None\<rparr>))"

text \<open>The end of \<open>_handle_modifier_press\<close>, after the key event has been sent.\<close>

definition modifier_reply :: "string \<Rightarrow> PCRemoteControl \<Rightarrow> (error + response) \<times> PCRemoteControl" where
  "modifier_reply msg s =
     (let s' = (if active_modifiers s \<noteq> [] then start_modifier_timer s else s)
      in (Inr \<lparr> success = True, message = msg,
                activeModifiers = Some (active_modifiers s'), running = None \<rparr>, s'))"

definition handle_modifier_press ::
  "(string \<Rightarrow> bool) \<Rightarrow> string \<Rightarrow> PCRemoteControl \<Rightarrow> (error + response) \<times> PCRemoteControl" where
  "handle_modifier_press ex modifier s =
     (let s1 = cancel_modifier_timer s in
      if modifier \<in> set (active_modifiers s1) then
        (let s2 = s1\<lparr>active_modifiers := removeAll modifier (active_modifiers s1)\<rparr> in
         case dict_get MODIFIER_MAP modifier of
           Inl e \<Rightarrow> (Inl e, s2)
         | Inr k \<Rightarrow>
             modifier_reply (capitalize modifier @ '' released.'')
               (snd (execute_command ex (quoted (nircmd s2) @ '' sendkey '' @ k @ '' up'') s2)))
      else
        (let s2 = s1\<lparr>active_modifiers := active_modifiers s1 @ [modifier]\<rparr> in
         case dict_get MODIFIER_MAP modifier of
           Inl e \<Rightarrow> (Inl e, s2)
         | Inr k \<Rightarrow>
             modifier_reply (capitalize modifier @ '' is active.'')
               (snd (execute_command ex (quoted (nircmd s2) @ '' sendkey '' @ k @ '' down'') s2))))"

text \<open>\<open>if self.active_modifier:\<close> holds for a string that is neither \<open>None\<close> nor empty.\<close>

definition truthy :: "string option \<Rightarrow> bool" where
  "truthy v = (case v of None \<Rightarrow> False | Some x \<Rightarrow> x \<noteq> [])"

text \<open>The end of \<open>_handle_standard_key_press\<close>: run the command and build the reply.\<close>

definition key_reply ::
  "(string \<Rightarrow> bool) \<Rightarrow> string \<Rightarrow> string \<Rightarrow> PCRemoteControl \<Rightarrow> (error + response) \<times> PCRemoteControl" where
  "key_reply ex full_command success_message s =
     (case execute_command ex full_command s of
        (ok, s') \<Rightarrow>
          (Inr \<lparr> success = ok,
                 message = (if ok then success_message else ''Command failed''),
                 activeModifiers = Some (active_modifiers s'), running = None \<rparr>, s'))"

text \<open>
  \<open>_handle_standard_key_press\<close>.  The test reads the attribute \<open>active_modifier\<close>, which
  \<open>__init__\<close> sets to \<open>None\<close> and no other statement of the program assigns; the set that
  \<open>_handle_modifier_press\<close> maintains is \<open>active_modifiers\<close>.  (The pause of 0.1 s before
  the test has no effect on the state.)
\<close>

definition handle_standard_key_press ::
  "(string \<Rightarrow> bool) \<Rightarrow> string \<Rightarrow> string \<Rightarrow> PCRemoteControl \<Rightarrow> (error + response) \<times> PCRemoteControl" where
  "handle_standard_key_press ex key_command msg s =
     (if truthy (active_modifier s) then
        (case dict_get_all MODIFIER_MAP (active_modifiers s) of
           Inl e \<Rightarrow> (Inl e, s)
         | Inr modifier_keys \<Rightarrow>
             (let combo = join ''+'' modifier_keys;
                  full_command = quoted (nircmd s) @ '' sendkeypress '' @ combo @ ''+'' @ key_command;
                  success_message =
                    ''Sent '' @ join ''+'' (map capitalize (active_modifiers s)) @ ''+'' @ msg
              in case clear_modifier_state ex s of
                   (Inl e, s1) \<Rightarrow> (Inl e, s1)
                 | (Inr u, s1) \<Rightarrow> key_reply ex full_command success_message s1))
      else
        key_reply ex (quoted (nircmd s) @ '' sendkeypress '' @ key_command) (''Sent '' @ msg) s)"

text \<open>
  The timer fires: its thread runs \<open>_clear_modifier_state\<close> and ends.  Only a waiting
  timer can fire.
\<close>

definition timer_fires :: "(string \<Rightarrow> bool) \<Rightarrow> nat \<Rightarrow> PCRemoteControl \<Rightarrow> PCRemoteControl option" where
  "timer_fires ex t s =
     (if t < length (timers s) \<and> timers s ! t = Waiting then
        (case clear_modifier_state ex (s\<lparr>timers := (timers s)[t := Running]\<rparr>) of
           (r, s1) \<Rightarrow> Some (s1\<lparr>timers := (timers s1)[t := Finished]\<rparr>))
      else None)"


text \<open>
  The modifier names that the action table of \<open>handle_action\<close> passes to
  \<open>_handle_modifier_press\<close> (\<open>press_alt\<close>, \<open>press_ctrl\<close>, \<open>press_shift\<close>); they are the
  keys of \<open>MODIFIER_MAP\<close>.
\<close>

definition modifiers :: "string set" where
  "modifiers = {''alt'', ''ctrl'', ''shift''}"

text \<open>Several modifier presses in a row; an exception ends the run.\<close>

fun toggle_all ::
  "(string \<Rightarrow> bool) \<Rightarrow> string list \<Rightarrow> PCRemoteControl \<Rightarrow> error + PCRemoteControl" where
  "toggle_all ex [] s = Inr s"
| "toggle_all ex (m # ms) s =
     (case handle_modifier_press ex m s of
        (Inl e, s') \<Rightarrow> Inl e
      | (Inr r, s') \<Rightarrow> toggle_all ex ms s')"

text \<open>\<open>_clear_modifier_state\<close> called \<open>n\<close> times in a row; an exception ends the run.\<close>

fun clear_repeatedly ::
  "(string \<Rightarrow> bool) \<Rightarrow> nat \<Rightarrow> PCRemoteControl \<Rightarrow> (error + unit) \<times> PCRemoteControl" where
  "clear_repeatedly ex 0 s = (Inr (), s)"
| "clear_repeatedly ex (Suc n) s =
     (case clear_modifier_state ex s of
        (Inl e, s') \<Rightarrow> (Inl e, s')
      | (Inr u, s') \<Rightarrow> clear_repeatedly ex n s')"

text \<open>
  The operations on the modifier keys as transitions of one state machine: a modifier
  press from the action table, a standard key press, a direct call of
  \<open>_clear_modifier_state\<close>, and the firing of a timer.  Each runs to its end before the
  next begins.
\<close>

datatype modifier_op = Toggle string | KeyPress string string | ForceClear | TimerFires nat

fun apply_op ::
  "(string \<Rightarrow> bool) \<Rightarrow> modifier_op \<Rightarrow> PCRemoteControl \<Rightarrow> PCRemoteControl option" where
  "apply_op ex (Toggle m) s =
     (if m \<in> modifiers then Some (snd (handle_modifier_press ex m s)) else None)"
| "apply_op ex (KeyPress k msg) s = Some (snd (handle_standard_key_press ex k msg s))"
| "apply_op ex ForceClear s = Some (snd (clear_modifier_state ex s))"
| "apply_op ex (TimerFires t) s = timer_fires ex t s"

text \<open>
  The invariant of the modifier set: it is non-empty exactly when some timer is waiting
  to fire, and at most one timer is waiting.
\<close>

definition modifier_invariant :: "PCRemoteControl \<Rightarrow> bool" where
  "modifier_invariant s \<longleftrightarrow>
     (active_modifiers s \<noteq> [] \<longleftrightarrow> (\<exists>t<length (timers s). timers s ! t = Waiting)) \<and>
     (\<forall>t<length (timers s). \<forall>u<length (timers s).
        timers s ! t = Waiting \<and> timers s ! u = Waiting \<longrightarrow> t = u)"

text \<open>
  What makes the invariant inductive: a waiting timer is the one that
  \<open>modifier_key_timer\<close> refers to, and only known modifiers are held.
\<close>

definition timer_tracked :: "PCRemoteControl \<Rightarrow> bool" where
  "timer_tracked s \<longleftrightarrow>
     (\<forall>t<length (timers s). timers s ! t = Waiting \<longrightarrow> modifier_key_timer s = Some t) \<and>
     set (active_modifiers s) \<subseteq> modifiers"

text \<open>A run of operations; it stops at an operation that cannot take place.\<close>

fun run_ops ::
  "(string \<Rightarrow> bool) \<Rightarrow> modifier_op list \<Rightarrow> PCRemoteControl \<Rightarrow> PCRemoteControl option" where
  "run_ops ex [] s = Some s"
| "run_ops ex (op # ops) s =
     (case apply_op ex op s of None \<Rightarrow> None | Some s' \<Rightarrow> run_ops ex ops s')"

text \<open>The held modifiers after a press of \<open>m\<close>: \<open>m\<close> is removed if held, added if not.\<close>

definition new_modifiers :: "string \<Rightarrow> string list \<Rightarrow> string list" where
  "new_modifiers m ms = (if m \<in> set ms then removeAll m ms else ms @ [m])"

section \<open>Rate limiting\<close>

text \<open>\<open>d[k] = v\<close>: replaces the value of an existing key, or adds the key at the end.\<close>

fun dict_set :: "string \<Rightarrow> 'a \<Rightarrow> (string \<times> 'a) list \<Rightarrow> (string \<times> 'a) list" where
  "dict_set k v [] = [(k, v)]"
| "dict_set k v ((k', v') # d) = (if k' = k then (k, v) # d else (k', v') # dict_set k v d)"

text \<open>\<open>d.setdefault(k, v)\<close>, for its effect on the dictionary.\<close>

definition setdefault :: "string \<Rightarrow> 'a \<Rightarrow> (string \<times> 'a) list \<Rightarrow> (string \<times> 'a) list" where
  "setdefault k v d = (case map_of d k of None \<Rightarrow> d @ [(k, v)] | Some old \<Rightarrow> d)"

text \<open>The time stamps recorded for a client; none when the client is unknown.\<close>

definition client_log :: "PCRemoteControl \<Rightarrow> string \<Rightarrow> datetime list" where
  "client_log s client_ip = (case map_of (request_counts s) client_ip of None \<Rightarrow> [] | Some l \<Rightarrow> l)"

text \<open>The list comprehension \<open>[t for t in ... if t > now - timedelta(minutes=1)]\<close>.\<close>

definition prune :: "datetime \<Rightarrow> datetime list \<Rightarrow> datetime list" where
  "prune now l = filter (\<lambda>t. t > now - minutes 1) l"

text \<open>
  \<open>_rate_limit_check\<close>; \<open>now\<close> is the value of \<open>datetime.now()\<close>.  After \<open>setdefault\<close>
  the key is present, so the two reads of \<open>self.request_counts[client_ip]\<close> cannot raise.
\<close>

definition rate_limit_check :: "string \<Rightarrow> datetime \<Rightarrow> PCRemoteControl \<Rightarrow> bool \<times> PCRemoteControl" where
  "rate_limit_check client_ip now s =
     (let counts0 = setdefault client_ip [] (request_counts s);
          old = (case map_of counts0 client_ip of None \<Rightarrow> [] | Some l \<Rightarrow> l);
          pruned = prune now old;
          counts1 = dict_set client_ip pruned counts0
      in if int (length pruned) \<ge> MAX_REQUESTS_PER_MINUTE (config s)
         then (False, s\<lparr>request_counts := counts1\<rparr>)
         else (True, s\<lparr>request_counts := dict_set client_ip (pruned @ [now]) counts1\<rparr>))"

text \<open>The checks of one client at the given times, in order.\<close>

fun rate_limit_checks ::
  "string \<Rightarrow> datetime list \<Rightarrow> PCRemoteControl \<Rightarrow> bool list \<times> PCRemoteControl" where
  "rate_limit_checks client_ip [] s = ([], s)"
| "rate_limit_checks client_ip (t # ts) s =
     (case rate_limit_check client_ip t s of
        (b, s1) \<Rightarrow> (case rate_limit_checks client_ip ts s1 of (bs, s2) \<Rightarrow> (b # bs, s2)))"

section \<open>Sessions\<close>

text \<open>
  A session is the dictionary of the Flask session.  \<open>SIso t\<close> is the ISO string of
  the time stamp \<open>t\<close>, as \<open>datetime.isoformat\<close> writes and \<open>datetime.fromisoformat\<close>
  reads it; \<open>SStr\<close> is any other string.
\<close>

datatype sval = SBool bool | SIso datetime | SStr string

type_synonym session = "(string \<times> sval) list"

definition fromisoformat :: "sval \<Rightarrow> error + datetime" where
  "fromisoformat v =
     (case v of
        SIso t \<Rightarrow> Inr t
      | SStr x \<Rightarrow> Inl (ValueError x)
      | SBool b \<Rightarrow> Inl (TypeError ''fromisoformat: argument must be str''))"

record request =
  http_method :: string
  endpoint :: string
  remote_addr :: string
  form :: "(string \<times> string) list"

text \<open>What a handler sends back: a JSON error with its status, a redirect, or a page.\<close>

datatype reply = JsonError string nat | Redirect string | Render string

text \<open>
  \<open>before_request\<close>.  \<open>now_rl\<close>, \<open>now_chk\<close> and \<open>now_set\<close> are the three readings of
  \<open>datetime.now()\<close>.  The result is \<open>None\<close> when the request goes on to its handler.
  The comparison evaluates its left side first (\<open>fromisoformat\<close>), then reads the
  attribute \<open>SESSION_TIMEOUT\<close> of the configuration.
\<close>

definition before_request ::
  "request \<Rightarrow> datetime \<Rightarrow> datetime \<Rightarrow> datetime \<Rightarrow> PCRemoteControl \<Rightarrow> session \<Rightarrow>
     (error + reply option) \<times> PCRemoteControl \<times> session" where
  "before_request req now_rl now_chk now_set s sess =
     (if \<not> app_enabled s \<and> endpoint req \<noteq> ''static'' then
        (Inr (Some (JsonError ''App is disabled from system tray'' 503)), s, sess)
      else
        (case rate_limit_check (remote_addr req) now_rl s of
           (False, s1) \<Rightarrow> (Inr (Some (JsonError ''Rate limit exceeded'' 429)), s1, sess)
         | (True, s1) \<Rightarrow>
             (case (map_of sess ''logged_in'', map_of sess ''last_activity'') of
                (Some li, Some la) \<Rightarrow>
                  (case fromisoformat la of
                     Inl e \<Rightarrow> (Inl e, s1, sess)
                   | Inr seen \<Rightarrow>
                       (case Config_getattr (config s1) ''SESSION_TIMEOUT'' of
                          Inl e \<Rightarrow> (Inl e, s1, sess)
                        | Inr (CInt m) \<Rightarrow>
                            if now_chk - seen > minutes m
                            then (Inr (Some (Redirect ''login'')), s1, [])
                            else (Inr None, s1, dict_set ''last_activity'' (SIso now_set) sess)
                        | Inr other \<Rightarrow> (Inl (TypeError ''timedelta: unsupported type''), s1, sess)))
              | other \<Rightarrow> (Inr None, s1, sess))))"

text \<open>\<open>login\<close>: the only statement that writes to the session is \<open>session["logged_in"] = True\<close>.\<close>

definition login :: "request \<Rightarrow> PCRemoteControl \<Rightarrow> session \<Rightarrow> reply \<times> session" where
  "login req s sess =
     (if http_method req = ''POST''
         \<and> map_of (form req) ''username'' = Some (USERNAME (config s))
         \<and> map_of (form req) ''password'' = Some (PASSWORD (config s))
      then (Redirect ''index'', dict_set ''logged_in'' (SBool True) sess)
      else (Render ''login.html'', sess))"

text \<open>\<open>logout\<close>.\<close>

definition logout :: "session \<Rightarrow> reply \<times> session" where
  "logout sess = (Redirect ''login'', [])"

section \<open>The cache of running processes\<close>

text \<open>
  The set comprehension of \<open>_update_running_apps_cache\<close>: the lower-cased names of the
  processes that have one.
\<close>

fun process_names :: "string option list \<Rightarrow> string list" where
  "process_names [] = []"
| "process_names (None # ps) = process_names ps"
| "process_names (Some n # ps) = (if n = [] then process_names ps else lower n # process_names ps)"

text \<open>
  \<open>_update_running_apps_cache\<close>.  \<open>probe\<close> is what enumerating the processes gives: the
  name of each process, or the exception that the enumeration raised.  \<open>now1\<close> and
  \<open>now2\<close> are the two readings of \<open>datetime.now()\<close>.
\<close>

definition update_running_apps_cache ::
  "bool \<Rightarrow> datetime \<Rightarrow> error + string option list \<Rightarrow> datetime \<Rightarrow> PCRemoteControl \<Rightarrow> PCRemoteControl" where
  "update_running_apps_cache force now1 probe now2 s =
     (if \<not> force \<and> now1 - last_cache_update s < cache_ttl s then s
      else
        (case probe of
           Inl e \<Rightarrow> s
         | Inr ps \<Rightarrow> s\<lparr>running_apps_cache := set (process_names ps), last_cache_update := now2\<rparr>))"

text \<open>\<open>process_name in self.running_apps_cache\<close>.\<close>

definition is_running :: "string \<Rightarrow> PCRemoteControl \<Rightarrow> bool" where
  "is_running pname s \<longleftrightarrow> pname \<in> running_apps_cache s"

section \<open>Starting and stopping applications\<close>

definition str_error :: "error \<Rightarrow> string" where
  "str_error e =
     (case e of KeyError x \<Rightarrow> x | AttributeError x \<Rightarrow> x | ValueError x \<Rightarrow> x
      | TypeError x \<Rightarrow> x | Exception x \<Rightarrow> x)"

text \<open>The end of \<open>app_toggle\<close>: the second refresh of the cache and the reply.\<close>

definition toggle_reply ::
  "bool \<Rightarrow> string \<Rightarrow> bool \<Rightarrow> error + string option list \<Rightarrow> datetime \<Rightarrow> PCRemoteControl \<Rightarrow>
     response \<times> PCRemoteControl" where
  "toggle_reply ok msg was_running probe now s =
     (\<lparr> success = ok, message = msg, activeModifiers = None,
        running = Some (if ok then \<not> was_running else was_running) \<rparr>,
      update_running_apps_cache True now probe now s)"

text \<open>
  \<open>app_toggle\<close>.  \<open>popen\<close> says for which command lines \<open>subprocess.Popen\<close> raises;
  \<open>probe1\<close>, \<open>probe2\<close> and \<open>now1\<close>, \<open>now2\<close> belong to the two refreshes of the cache.
  (The pause of 0.5 s before the second refresh has no effect on the state.)
\<close>

definition app_toggle ::
  "(string \<Rightarrow> bool) \<Rightarrow> (string \<Rightarrow> error option) \<Rightarrow> string \<Rightarrow>
     error + string option list \<Rightarrow> datetime \<Rightarrow> error + string option list \<Rightarrow> datetime \<Rightarrow>
     PCRemoteControl \<Rightarrow> response \<times> PCRemoteControl" where
  "app_toggle ex popen app_name probe1 now1 probe2 now2 s =
     (case map_of (apps s) app_name of
        None \<Rightarrow>
          (\<lparr> success = False, message = ''App not configured'', activeModifiers = None,
             running = None \<rparr>, s)
      | Some app_config \<Rightarrow>
          (let display_name = title app_name;
               pname = lower (process_name app_config);
               is_closable = closable app_config;
               s1 = update_running_apps_cache True now1 probe1 now1 s;
               running_now = is_running pname s1
           in if running_now then
                (if \<not> is_closable then
                   (\<lparr> success = True, message = ''cannot be close '' @ display_name,
                      activeModifiers = None, running = Some True \<rparr>, s1)
                 else
                   (case execute_command ex (''taskkill /F /IM '' @ quoted (exe app_config)) s1 of
                      (ok, s2) \<Rightarrow>
                        toggle_reply ok
                          (if ok then display_name @ '' closed.''
                           else ''Failed to close '' @ display_name @ ''.'')
                          running_now probe2 now2 s2))
              else
                (let s2 = s1\<lparr>trace := trace s1 @ [Popen (cmd app_config)]\<rparr> in
                 case popen (cmd app_config) of
                   None \<Rightarrow> toggle_reply True (display_name @ '' started.'') running_now probe2 now2 s2
                 | Some e \<Rightarrow>
                     toggle_reply False
                       (''Failed to start '' @ display_name @ '': '' @ str_error e)
                       running_now probe2 now2 s2)))"

section \<open>Volume\<close>

text \<open>\<open>str\<close> of an integer.\<close>

definition digit_char :: "nat \<Rightarrow> char" where
  "digit_char n = (''0123456789'' ! (n mod 10))"

function str_nat :: "nat \<Rightarrow> string" where
  "str_nat n = (if n < 10 then [digit_char n] else str_nat (n div 10) @ [digit_char n])"
  by pat_completeness auto
termination
  by (relation "measure (\<lambda>n. n)") auto

declare str_nat.simps [simp del]

definition str_int :: "int \<Rightarrow> string" where
  "str_int i = (if i < 0 then CHR ''-'' # str_nat (nat (- i)) else str_nat (nat i))"

text \<open>
  What the audio endpoint does during \<open>_set_volume\<close>: all calls succeed, or one raises
  before the level is set (opening the endpoint), or one raises when or after it is set.
\<close>

datatype audio = AudioOk | AudioFailsBefore string | AudioFailsAfter string

text \<open>
  \<open>_set_volume\<close>.  The event \<open>SetMasterVolumeLevelScalar v\<close> stands for the call with
  the argument \<open>v / 100.0\<close>.
\<close>

definition set_volume :: "audio \<Rightarrow> int \<Rightarrow> PCRemoteControl \<Rightarrow> response \<times> PCRemoteControl" where
  "set_volume au value0 s =
     (case au of
        AudioFailsBefore e \<Rightarrow>
          (\<lparr> success = False, message = e, activeModifiers = None, running = None \<rparr>, s)
      | AudioFailsAfter e \<Rightarrow>
          (let v = max 0 (min 100 value0) in
           (\<lparr> success = False, message = e, activeModifiers = None, running = None \<rparr>,
            s\<lparr>trace := trace s @ [SetMasterVolumeLevelScalar v]\<rparr>))
      | AudioOk \<Rightarrow>
          (let v = max 0 (min 100 value0) in
           (\<lparr> success = True, message = ''Volume set to '' @ str_int v @ ''%'',
              activeModifiers = None, running = None \<rparr>,
            s\<lparr>trace := trace s @ [SetMasterVolumeLevelScalar v]\<rparr>)))"

section \<open>A freshly started instance\<close>

text \<open>The default configuration on a host with the given device and path names.\<close>

definition boot :: PCRemoteControl where
  "boot = init (DEFAULTS ''Speakers'' ''Microphone'') ''nircmd.exe''
            ''Update.exe --processStart Discord.exe'' ''Steam.exe''"

definition host_ok :: "string \<Rightarrow> bool" where
  "host_ok command = True"

text \<open>A request to an action route and a login with the configured credentials.\<close>

definition api_request :: request where
  "api_request = \<lparr> http_method = ''POST'', endpoint = ''handle_action'',
                    remote_addr = ''10.0.0.7'', form = [] \<rparr>"

definition login_request :: request where
  "login_request = \<lparr> http_method = ''POST'', endpoint = ''login'', remote_addr = ''10.0.0.7'',
                      form = [(''username'', ''admin''), (''password'', ''password'')] \<rparr>"

text \<open>The state after Alt has been pressed on a fresh instance.\<close>

definition alt_held :: PCRemoteControl where
  "alt_held = snd (handle_modifier_press host_ok ''alt'' boot)"

section \<open>Properties of the modifier keys\<close>

lemma dict_get_modifier:
  "m \<in> modifiers \<Longrightarrow> \<exists>k. dict_get MODIFIER_MAP m = Inr k"
  by (auto simp: modifiers_def dict_get_def MODIFIER_MAP_def)

lemma active_modifiers_cancel [simp]:
  "active_modifiers (cancel_modifier_timer s) = active_modifiers s"
  by (simp add: cancel_modifier_timer_def split: option.splits)

lemma active_modifiers_execute [simp]:
  "active_modifiers (snd (execute_command ex c s)) = active_modifiers s"
  by (simp add: execute_command_def)

lemma active_modifiers_start [simp]:
  "active_modifiers (start_modifier_timer s) = active_modifiers s"
  by (simp add: start_modifier_timer_def)

lemma modifier_reply_result:
  "modifier_reply msg s = (r, s') \<Longrightarrow>
     active_modifiers s' = active_modifiers s \<and>
     r = Inr \<lparr> success = True, message = msg,
               activeModifiers = Some (active_modifiers s), running = None \<rparr>"
  by (auto simp: modifier_reply_def Let_def split: if_splits)

lemma press_absent:
  assumes "m \<in> modifiers" "m \<notin> set (active_modifiers s)"
  shows "\<exists>s'. handle_modifier_press ex m s =
           (Inr \<lparr> success = True, message = capitalize m @ '' is active.'',
                  activeModifiers = Some (active_modifiers s @ [m]), running = None \<rparr>, s')
         \<and> active_modifiers s' = active_modifiers s @ [m]"
proof -
  obtain k where k: "dict_get MODIFIER_MAP m = Inr k"
    using dict_get_modifier [OF assms(1)] by blast
  show ?thesis
    using assms(2) k
    by (simp add: handle_modifier_press_def Let_def modifier_reply_def)
qed

lemma press_present:
  assumes "m \<in> modifiers" "m \<in> set (active_modifiers s)"
  shows "\<exists>s'. handle_modifier_press ex m s =
           (Inr \<lparr> success = True, message = capitalize m @ '' released.'',
                  activeModifiers = Some (removeAll m (active_modifiers s)), running = None \<rparr>, s')
         \<and> active_modifiers s' = removeAll m (active_modifiers s)"
proof -
  obtain k where k: "dict_get MODIFIER_MAP m = Inr k"
    using dict_get_modifier [OF assms(1)] by blast
  show ?thesis
    using assms(2) k
    by (simp add: handle_modifier_press_def Let_def modifier_reply_def)
qed

lemma toggle_all_distinct:
  "set ms \<subseteq> modifiers \<Longrightarrow> distinct ms \<Longrightarrow> set ms \<inter> set (active_modifiers s) = {} \<Longrightarrow>
   \<exists>s'. toggle_all ex ms s = Inr s' \<and> active_modifiers s' = active_modifiers s @ ms"
proof (induction ms arbitrary: s)
  case Nil
  then show ?case by simp
next
  case (Cons m ms)
  from Cons.prems have m: "m \<in> modifiers" "m \<notin> set (active_modifiers s)" by auto
  from press_absent [OF m, of ex] obtain r s1 where
    s1: "handle_modifier_press ex m s = (Inr r, s1)" "active_modifiers s1 = active_modifiers s @ [m]"
    by blast
  have "set ms \<subseteq> modifiers" "distinct ms" "set ms \<inter> set (active_modifiers s1) = {}"
    using Cons.prems s1(2) by auto
  from Cons.IH [OF this] obtain s' where
    "toggle_all ex ms s1 = Inr s'" "active_modifiers s' = active_modifiers s1 @ ms" by blast
  then show ?case using s1 by simp
qed


lemma timers_cancel:
  "timers (cancel_modifier_timer s) =
     (case modifier_key_timer s of
        None \<Rightarrow> timers s
      | Some t \<Rightarrow> if t < length (timers s) \<and> timers s ! t = Waiting
                  then (timers s)[t := Cancelled] else timers s)"
  by (simp add: cancel_modifier_timer_def timer_cancel_def is_alive_def split: option.splits)

lemma cancel_fields [simp]:
  "modifier_key_timer (cancel_modifier_timer s) = modifier_key_timer s"
  "trace (cancel_modifier_timer s) = trace s"
  "length (timers (cancel_modifier_timer s)) = length (timers s)"
  by (simp_all add: cancel_modifier_timer_def timer_cancel_def split: option.splits)

lemma cancel_no_waiting:
  assumes tr: "\<forall>t<length (timers s). timers s ! t = Waiting \<longrightarrow> modifier_key_timer s = Some t"
  shows "Waiting \<notin> set (timers (cancel_modifier_timer s))"
proof
  assume "Waiting \<in> set (timers (cancel_modifier_timer s))"
  then obtain u where u: "u < length (timers s)"
      "timers (cancel_modifier_timer s) ! u = Waiting"
    by (auto simp: in_set_conv_nth)
  show False
  proof (cases "modifier_key_timer s")
    case None
    with u have "timers s ! u = Waiting" by (simp add: timers_cancel)
    with tr u(1) None show False by simp
  next
    case (Some t)
    show False
    proof (cases "t < length (timers s) \<and> timers s ! t = Waiting")
      case True
      with Some u have upd: "(timers s)[t := Cancelled] ! u = Waiting"
        by (simp add: timers_cancel)
      then have "u \<noteq> t" using u(1) by auto
      with upd have "timers s ! u = Waiting" by simp
      with tr u(1) Some \<open>u \<noteq> t\<close> show False by simp
    next
      case False
      with Some u have w: "timers s ! u = Waiting" by (simp add: timers_cancel)
      with tr u(1) Some have "u = t" by simp
      with w u(1) False show False by simp
    qed
  qed
qed

lemma release_keys_trace:
  "set ms \<subseteq> modifiers \<Longrightarrow>
   \<exists>tr. release_keys ex ms s = (Inr (), s\<lparr>trace := tr\<rparr>)"
proof (induction ms arbitrary: s)
  case Nil
  have "s = s\<lparr>trace := trace s\<rparr>" by simp
  then show ?case by (metis release_keys.simps(1))
next
  case (Cons m ms)
  then obtain k where k: "dict_get MODIFIER_MAP m = Inr k"
    using dict_get_modifier [of m] by auto
  define s0 where "s0 = snd (execute_command ex (quoted (nircmd s) @ '' sendkey '' @ k @ '' up'') s)"
  from Cons.prems have "set ms \<subseteq> modifiers" by simp
  from Cons.IH [OF this, of s0] obtain tr where
    tr: "release_keys ex ms s0 = (Inr (), s0\<lparr>trace := tr\<rparr>)" by blast
  have "s0\<lparr>trace := tr\<rparr> = s\<lparr>trace := tr\<rparr>"
    by (simp add: s0_def execute_command_def)
  with tr k have "release_keys ex (m # ms) s = (Inr (), s\<lparr>trace := tr\<rparr>)"
    by (simp add: s0_def)
  then show ?case by blast
qed


lemma clear_result:
  assumes "set (active_modifiers s) \<subseteq> modifiers"
  shows "\<exists>tr. clear_modifier_state ex s =
           (Inr (), (cancel_modifier_timer (s\<lparr>trace := tr\<rparr>))
                      \<lparr>active_modifiers := [], modifier_key_timer := None\<rparr>)"
proof -
  from release_keys_trace [OF assms, of ex s] obtain tr where
    "release_keys ex (active_modifiers s) s = (Inr (), s\<lparr>trace := tr\<rparr>)" by blast
  then have "clear_modifier_state ex s =
           (Inr (), (cancel_modifier_timer (s\<lparr>trace := tr\<rparr>))
                      \<lparr>active_modifiers := [], modifier_key_timer := None\<rparr>)"
    by (simp add: clear_modifier_state_def)
  then show ?thesis by blast
qed

lemma press_state:
  assumes "m \<in> modifiers"
  shows "active_modifiers (snd (handle_modifier_press ex m s)) = new_modifiers m (active_modifiers s)"
    and "timers (snd (handle_modifier_press ex m s)) =
           (if new_modifiers m (active_modifiers s) \<noteq> []
            then timers (cancel_modifier_timer s) @ [Waiting]
            else timers (cancel_modifier_timer s))"
    and "modifier_key_timer (snd (handle_modifier_press ex m s)) =
           (if new_modifiers m (active_modifiers s) \<noteq> []
            then Some (length (timers s)) else modifier_key_timer s)"
proof -
  obtain k where k: "dict_get MODIFIER_MAP m = Inr k"
    using dict_get_modifier [OF assms] by blast
  show "active_modifiers (snd (handle_modifier_press ex m s)) = new_modifiers m (active_modifiers s)"
    using k by (simp add: handle_modifier_press_def Let_def modifier_reply_def new_modifiers_def)
  show "timers (snd (handle_modifier_press ex m s)) =
           (if new_modifiers m (active_modifiers s) \<noteq> []
            then timers (cancel_modifier_timer s) @ [Waiting]
            else timers (cancel_modifier_timer s))"
    using k by (simp add: handle_modifier_press_def Let_def modifier_reply_def new_modifiers_def
        start_modifier_timer_def execute_command_def)
  show "modifier_key_timer (snd (handle_modifier_press ex m s)) =
           (if new_modifiers m (active_modifiers s) \<noteq> []
            then Some (length (timers s)) else modifier_key_timer s)"
    using k by (simp add: handle_modifier_press_def Let_def modifier_reply_def new_modifiers_def
        start_modifier_timer_def execute_command_def)
qed

lemma drained_invariant:
  assumes "Waiting \<notin> set (timers s)" "active_modifiers s = []"
  shows "modifier_invariant s \<and> timer_tracked s"
proof -
  have "timers s ! t \<noteq> Waiting" if "t < length (timers s)" for t
    using that assms(1) by (metis nth_mem)
  then show ?thesis
    using assms(2) by (simp add: modifier_invariant_def timer_tracked_def)
qed

lemma armed_invariant:
  assumes "Waiting \<notin> set ts" "timers s = ts @ [Waiting]"
    "modifier_key_timer s = Some (length ts)" "active_modifiers s \<noteq> []"
    "set (active_modifiers s) \<subseteq> modifiers"
  shows "modifier_invariant s \<and> timer_tracked s"
proof -
  have only: "t = length ts" if "t < length (timers s)" "timers s ! t = Waiting" for t
  proof (rule ccontr)
    assume "t \<noteq> length ts"
    with that assms(2) have "t < length ts" "ts ! t = Waiting"
      by (auto simp: nth_append)
    with assms(1) show False by (metis nth_mem)
  qed
  have ex: "length ts < length (timers s) \<and> timers s ! length ts = Waiting"
    using assms(2) by simp
  show ?thesis
    unfolding modifier_invariant_def timer_tracked_def
    using only ex assms(3,4,5) by blast
qed


lemma dict_get_all_modifiers:
  "set ms \<subseteq> modifiers \<Longrightarrow> \<exists>ks. dict_get_all MODIFIER_MAP ms = Inr ks"
proof (induction ms)
  case Nil
  then show ?case by simp
next
  case (Cons m ms)
  then obtain k ks where "dict_get MODIFIER_MAP m = Inr k" "dict_get_all MODIFIER_MAP ms = Inr ks"
    using dict_get_modifier [of m] by auto
  then show ?case by simp
qed

lemma key_reply_state:
  "snd (key_reply ex c msg s) = s\<lparr>trace := trace s @ [Exec c]\<rparr>"
  by (simp add: key_reply_def execute_command_def)

lemma new_modifiers_subset:
  "m \<in> modifiers \<Longrightarrow> set ms \<subseteq> modifiers \<Longrightarrow> set (new_modifiers m ms) \<subseteq> modifiers"
  by (auto simp: new_modifiers_def)

lemma cleared_no_waiting:
  assumes "\<forall>t<length (timers s). timers s ! t = Waiting \<longrightarrow> modifier_key_timer s = Some t"
    and "set (active_modifiers s) \<subseteq> modifiers"
  shows "Waiting \<notin> set (timers (snd (clear_modifier_state ex s)))"
    and "length (timers (snd (clear_modifier_state ex s))) = length (timers s)"
    and "active_modifiers (snd (clear_modifier_state ex s)) = []"
    and "modifier_key_timer (snd (clear_modifier_state ex s)) = None"
    and "fst (clear_modifier_state ex s) = Inr ()"
proof -
  from clear_result [OF assms(2), of ex] obtain tr where
    c: "clear_modifier_state ex s =
           (Inr (), (cancel_modifier_timer (s\<lparr>trace := tr\<rparr>))
                      \<lparr>active_modifiers := [], modifier_key_timer := None\<rparr>)" by blast
  have "Waiting \<notin> set (timers (cancel_modifier_timer (s\<lparr>trace := tr\<rparr>)))"
    by (rule cancel_no_waiting) (use assms(1) in simp)
  then show "Waiting \<notin> set (timers (snd (clear_modifier_state ex s)))"
    by (simp add: c)
  show "length (timers (snd (clear_modifier_state ex s))) = length (timers s)"
    by (simp add: c)
  show "active_modifiers (snd (clear_modifier_state ex s)) = []"
    by (simp add: c)
  show "modifier_key_timer (snd (clear_modifier_state ex s)) = None"
    by (simp add: c)
  show "fst (clear_modifier_state ex s) = Inr ()"
    by (simp add: c)
qed

lemma op_effect:
  assumes tracked: "timer_tracked s" and step: "apply_op ex op s = Some s'"
  shows "(timers s' = timers s \<and> active_modifiers s' = active_modifiers s \<and>
            modifier_key_timer s' = modifier_key_timer s)
       \<or> (Waiting \<notin> set (timers s') \<and> length (timers s') = length (timers s) \<and>
            active_modifiers s' = [])
       \<or> (\<exists>ts. Waiting \<notin> set ts \<and> length ts = length (timers s) \<and>
            timers s' = ts @ [Waiting] \<and> modifier_key_timer s' = Some (length ts) \<and>
            active_modifiers s' \<noteq> [] \<and> set (active_modifiers s') \<subseteq> modifiers)"
proof -
  from tracked have tr: "\<forall>t<length (timers s). timers s ! t = Waiting \<longrightarrow> modifier_key_timer s = Some t"
    and sub: "set (active_modifiers s) \<subseteq> modifiers"
    by (simp_all add: timer_tracked_def)
  show ?thesis
  proof (cases op)
    case (Toggle m)
    with step have m: "m \<in> modifiers" and s': "s' = snd (handle_modifier_press ex m s)"
      by (auto split: if_splits)
    have nw: "Waiting \<notin> set (timers (cancel_modifier_timer s))"
      by (rule cancel_no_waiting [OF tr])
    show ?thesis
    proof (cases "new_modifiers m (active_modifiers s) = []")
      case True
      with nw show ?thesis by (simp add: s' press_state [OF m])
    next
      case False
      have "set (active_modifiers s') \<subseteq> modifiers"
        using new_modifiers_subset [OF m sub] by (simp add: s' press_state [OF m])
      with False nw show ?thesis by (simp add: s' press_state [OF m])
    qed
  next
    case (KeyPress k msg)
    with step have s': "s' = snd (handle_standard_key_press ex k msg s)" by simp
    show ?thesis
    proof (cases "truthy (active_modifier s)")
      case False
      then show ?thesis
        by (simp add: s' handle_standard_key_press_def key_reply_state)
    next
      case True
      obtain ks where ks: "dict_get_all MODIFIER_MAP (active_modifiers s) = Inr ks"
        using dict_get_all_modifiers [OF sub] by blast
      obtain r s1 where c: "clear_modifier_state ex s = (r, s1)" by (cases "clear_modifier_state ex s")
      from cleared_no_waiting [OF tr sub, of ex] c
      have "r = Inr ()" "Waiting \<notin> set (timers s1)" "length (timers s1) = length (timers s)"
        "active_modifiers s1 = []" by simp_all
      then show ?thesis
        using True ks c by (simp add: s' handle_standard_key_press_def key_reply_state Let_def)
    qed
  next
    case ForceClear
    with step have s': "s' = snd (clear_modifier_state ex s)" by simp
    from cleared_no_waiting [OF tr sub, of ex] show ?thesis by (simp add: s')
  next
    case (TimerFires t)
    with step have t: "t < length (timers s)" "timers s ! t = Waiting"
      by (auto simp: timer_fires_def split: if_splits)
    define sr where "sr = s\<lparr>timers := (timers s)[t := Running]\<rparr>"
    have s': "s' = (snd (clear_modifier_state ex sr))
                     \<lparr>timers := (timers (snd (clear_modifier_state ex sr)))[t := Finished]\<rparr>"
      using step TimerFires t by (simp add: timer_fires_def sr_def split: prod.splits)
    have mk: "modifier_key_timer s = Some t" using tr t by simp
    have tr_sr: "\<forall>u<length (timers sr). timers sr ! u = Waiting \<longrightarrow> modifier_key_timer sr = Some u"
    proof (intro allI impI)
      fix u assume u: "u < length (timers sr)" "timers sr ! u = Waiting"
      then have "u \<noteq> t" by (auto simp: sr_def)
      with u have "u < length (timers s)" "timers s ! u = Waiting" by (simp_all add: sr_def)
      with tr have "modifier_key_timer s = Some u" by simp
      then show "modifier_key_timer sr = Some u" by (simp add: sr_def)
    qed
    have sub_sr: "set (active_modifiers sr) \<subseteq> modifiers" using sub by (simp add: sr_def)
    from cleared_no_waiting [OF tr_sr sub_sr, of ex]
    have nw: "Waiting \<notin> set (timers (snd (clear_modifier_state ex sr)))"
      and len: "length (timers (snd (clear_modifier_state ex sr))) = length (timers s)"
      and em: "active_modifiers (snd (clear_modifier_state ex sr)) = []"
      by (simp_all add: sr_def)
    have "Waiting \<notin> set ((timers (snd (clear_modifier_state ex sr)))[t := Finished])"
      using nw set_update_subset_insert [of "timers (snd (clear_modifier_state ex sr))" t Finished]
      by auto
    then show ?thesis using len em by (simp add: s')
  qed
qed

lemma boot_fields:
  "active_modifiers boot = []" "timers boot = []" "modifier_key_timer boot = None"
  "active_modifier boot = None" "trace boot = []" "nircmd boot = ''nircmd.exe''"
  by (simp_all add: boot_def init_def)

lemma init_invariant:
  "modifier_invariant (init cfg p d st) \<and> timer_tracked (init cfg p d st)"
  by (simp add: modifier_invariant_def timer_tracked_def init_def)

lemma alt_held_state:
  "alt_held = boot\<lparr> modifier_key_timer := Some 0, active_modifiers := [''alt''],
                     timers := [Waiting],
                     trace := [Exec (quoted ''nircmd.exe'' @ '' sendkey alt down'')] \<rparr>"
  by (simp add: alt_held_def handle_modifier_press_def cancel_modifier_timer_def boot_fields
      dict_get_def MODIFIER_MAP_def execute_command_def modifier_reply_def
      start_modifier_timer_def Let_def)

lemma alt_held_fields:
  "active_modifiers alt_held = [''alt'']" "timers alt_held = [Waiting]"
  "modifier_key_timer alt_held = Some 0" "active_modifier alt_held = None"
  "trace alt_held = [Exec (quoted ''nircmd.exe'' @ '' sendkey alt down'')]"
  "nircmd alt_held = ''nircmd.exe''"
  by (simp_all add: alt_held_state boot_fields)

lemma clear_empty:
  assumes "active_modifiers s = []"
  shows "clear_modifier_state ex s =
           (Inr (), (cancel_modifier_timer s)\<lparr>active_modifiers := [], modifier_key_timer := None\<rparr>)"
  using assms by (simp add: clear_modifier_state_def)

lemma clear_settled:
  assumes "active_modifiers s = []" "modifier_key_timer s = None"
  shows "clear_modifier_state ex s = (Inr (), s)"
  using assms by (simp add: clear_modifier_state_def cancel_modifier_timer_def)

lemma clear_repeatedly_settled:
  assumes "active_modifiers s = []" "modifier_key_timer s = None"
  shows "clear_repeatedly ex n s = (Inr (), s)"
  by (induction n) (simp_all add: clear_settled [OF assms])

lemma release_keys_active_modifier:
  "active_modifier (snd (release_keys ex ms s)) = active_modifier s"
  by (induction ms arbitrary: s) (simp_all add: execute_command_def split: sum.splits)

lemma active_modifier_cancel [simp]:
  "active_modifier (cancel_modifier_timer s) = active_modifier s"
  by (simp add: cancel_modifier_timer_def split: option.splits)

lemma clear_active_modifier:
  "active_modifier (snd (clear_modifier_state ex s)) = active_modifier s"
  using release_keys_active_modifier [of ex "active_modifiers s" s]
  by (cases "release_keys ex (active_modifiers s) s")
     (auto simp: clear_modifier_state_def split: sum.splits)

lemma press_active_modifier:
  "active_modifier (snd (handle_modifier_press ex m s)) = active_modifier s"
  by (simp add: handle_modifier_press_def modifier_reply_def start_modifier_timer_def
      execute_command_def Let_def split: sum.splits)

lemma key_active_modifier:
  "active_modifier (snd (handle_standard_key_press ex k msg s)) = active_modifier s"
  using clear_active_modifier [of ex s]
  by (cases "clear_modifier_state ex s")
     (auto simp: handle_standard_key_press_def key_reply_state Let_def split: sum.splits)

lemma active_modifier_never_assigned:
  "apply_op ex op s = Some s' \<Longrightarrow> active_modifier s' = active_modifier s"
proof (cases op)
  case (TimerFires t)
  assume "apply_op ex op s = Some s'"
  with TimerFires show ?thesis
    using clear_active_modifier [of ex "s\<lparr>timers := (timers s)[t := Running]\<rparr>"]
    by (cases "clear_modifier_state ex (s\<lparr>timers := (timers s)[t := Running]\<rparr>)")
       (auto simp: timer_fires_def split: if_splits)
qed (auto simp: press_active_modifier key_active_modifier clear_active_modifier split: if_splits)

lemma plain_key_press:
  assumes "active_modifier s = None"
  shows "handle_standard_key_press ex k msg s =
           key_reply ex (quoted (nircmd s) @ '' sendkeypress '' @ k) (''Sent '' @ msg) s"
  using assms by (simp add: handle_standard_key_press_def truthy_def)

lemma step_invariant:
  assumes "timer_tracked s" and "apply_op ex op s = Some s'" and "modifier_invariant s"
  shows "modifier_invariant s' \<and> timer_tracked s'"
proof -
  from op_effect [OF assms(1,2)]
  consider
    (same) "timers s' = timers s" "active_modifiers s' = active_modifiers s"
      "modifier_key_timer s' = modifier_key_timer s"
  | (drained) "Waiting \<notin> set (timers s')" "active_modifiers s' = []"
  | (armed) ts where "Waiting \<notin> set ts" "timers s' = ts @ [Waiting]"
      "modifier_key_timer s' = Some (length ts)"
      "active_modifiers s' \<noteq> []" "set (active_modifiers s') \<subseteq> modifiers"
    by blast
  then show ?thesis
  proof cases
    case same
    with assms(1,3) show ?thesis by (simp add: modifier_invariant_def timer_tracked_def)
  next
    case drained
    then show ?thesis by (rule drained_invariant)
  next
    case armed
    then show ?thesis by (rule armed_invariant)
  qed
qed

lemma run_invariant:
  "run_ops ex ops s = Some s' \<Longrightarrow> modifier_invariant s \<Longrightarrow> timer_tracked s \<Longrightarrow>
   modifier_invariant s' \<and> timer_tracked s'"
proof (induction ops arbitrary: s)
  case Nil
  then show ?case by simp
next
  case (Cons op ops)
  then obtain s1 where s1: "apply_op ex op s = Some s1" "run_ops ex ops s1 = Some s'"
    by (auto split: option.splits)
  from step_invariant [OF Cons.prems(3) s1(1) Cons.prems(2)] Cons.IH [OF s1(2)]
  show ?case by blast
qed

lemma run_active_modifier:
  "run_ops ex ops s = Some s' \<Longrightarrow> active_modifier s' = active_modifier s"
proof (induction ops arbitrary: s)
  case Nil
  then show ?case by simp
next
  case (Cons op ops)
  then obtain s1 where s1: "apply_op ex op s = Some s1" "run_ops ex ops s1 = Some s'"
    by (auto split: option.splits)
  from active_modifier_never_assigned [OF s1(1)] Cons.IH [OF s1(2)]
  show ?case by simp
qed

lemma reachable_invariant:
  assumes "run_ops ex ops (init cfg p d st) = Some s"
  shows "modifier_invariant s" "timer_tracked s" "active_modifier s = None"
  using run_invariant [OF assms] init_invariant [of cfg p d st] run_active_modifier [OF assms]
  by (simp_all add: init_def)

lemma reachable_key_press_is_plain:
  assumes "run_ops ex ops (init cfg p d st) = Some s"
  shows "snd (handle_standard_key_press ex k msg s) =
           s\<lparr>trace := trace s @ [Exec (quoted (nircmd s) @ '' sendkeypress '' @ k)]\<rparr>"
  using reachable_invariant(3) [OF assms]
  by (simp add: plain_key_press key_reply_state)

text \<open>
  Claim C5.  A press of a modifier \<open>m\<close> of the action table toggles its membership: when
  \<open>m\<close> is not held it is added and the reply says "is active", when it is held it is
  removed and the reply says "released"; the \<open>activeModifiers\<close> of the reply is the
  resulting set; pressing \<open>m\<close> a second time gives back the set of before.  Pressing
  \<open>N\<close> distinct modifiers, starting with none held, leaves \<open>N\<close> modifiers held.
\<close>

theorem toggle_modifier_membership:
  assumes "m \<in> modifiers" and "set ms \<subseteq> modifiers" and "distinct ms"
    and "active_modifiers s0 = []"
  shows "(case handle_modifier_press ex m s of
            (Inl e, s') \<Rightarrow> False
          | (Inr r, s') \<Rightarrow>
              (m \<notin> set (active_modifiers s) \<longrightarrow>
                 set (active_modifiers s') = insert m (set (active_modifiers s)) \<and>
                 message r = capitalize m @ '' is active.'') \<and>
              (m \<in> set (active_modifiers s) \<longrightarrow>
                 set (active_modifiers s') = set (active_modifiers s) - {m} \<and>
                 message r = capitalize m @ '' released.'') \<and>
              activeModifiers r = Some (active_modifiers s') \<and>
              (case handle_modifier_press ex m s' of
                 (Inl e, s'') \<Rightarrow> False
               | (Inr r', s'') \<Rightarrow> set (active_modifiers s'') = set (active_modifiers s)))
       \<and> (case toggle_all ex ms s0 of
            Inl e \<Rightarrow> False
          | Inr s' \<Rightarrow> card (set (active_modifiers s')) = length ms)"
proof
  show "case handle_modifier_press ex m s of
            (Inl e, s') \<Rightarrow> False
          | (Inr r, s') \<Rightarrow>
              (m \<notin> set (active_modifiers s) \<longrightarrow>
                 set (active_modifiers s') = insert m (set (active_modifiers s)) \<and>
                 message r = capitalize m @ '' is active.'') \<and>
              (m \<in> set (active_modifiers s) \<longrightarrow>
                 set (active_modifiers s') = set (active_modifiers s) - {m} \<and>
                 message r = capitalize m @ '' released.'') \<and>
              activeModifiers r = Some (active_modifiers s') \<and>
              (case handle_modifier_press ex m s' of
                 (Inl e, s'') \<Rightarrow> False
               | (Inr r', s'') \<Rightarrow> set (active_modifiers s'') = set (active_modifiers s))"
  proof (cases "m \<in> set (active_modifiers s)")
    case True
    from press_present [OF assms(1) True, of ex] obtain s1 where
      p1: "handle_modifier_press ex m s =
             (Inr \<lparr> success = True, message = capitalize m @ '' released.'',
                    activeModifiers = Some (removeAll m (active_modifiers s)), running = None \<rparr>, s1)"
      and a1: "active_modifiers s1 = removeAll m (active_modifiers s)" by blast
    have "m \<notin> set (active_modifiers s1)" by (simp add: a1)
    from press_absent [OF assms(1) this, of ex] obtain r2 s2 where
      p2: "handle_modifier_press ex m s1 = (Inr r2, s2)"
      and a2: "active_modifiers s2 = active_modifiers s1 @ [m]" by blast
    have "set (active_modifiers s2) = set (active_modifiers s)"
      using True by (auto simp: a1 a2)
    then show ?thesis using True by (simp add: p1 p2 a1)
  next
    case False
    from press_absent [OF assms(1) False, of ex] obtain s1 where
      p1: "handle_modifier_press ex m s =
             (Inr \<lparr> success = True, message = capitalize m @ '' is active.'',
                    activeModifiers = Some (active_modifiers s @ [m]), running = None \<rparr>, s1)"
      and a1: "active_modifiers s1 = active_modifiers s @ [m]" by blast
    have "m \<in> set (active_modifiers s1)" by (simp add: a1)
    from press_present [OF assms(1) this, of ex] obtain r2 s2 where
      p2: "handle_modifier_press ex m s1 = (Inr r2, s2)"
      and a2: "active_modifiers s2 = removeAll m (active_modifiers s1)" by blast
    have "set (active_modifiers s2) = set (active_modifiers s)"
      using False by (auto simp: a1 a2)
    then show ?thesis using False by (simp add: p1 p2 a1)
  qed
next
  have "set ms \<inter> set (active_modifiers s0) = {}" by (simp add: assms(4))
  from toggle_all_distinct [OF assms(2,3) this, of ex] obtain s' where
    "toggle_all ex ms s0 = Inr s'" "active_modifiers s' = active_modifiers s0 @ ms" by blast
  then show "case toggle_all ex ms s0 of
            Inl e \<Rightarrow> False
          | Inr s' \<Rightarrow> card (set (active_modifiers s')) = length ms"
    using assms(3,4) by (simp add: distinct_card)
qed

theorem toggle_modifier_membership_witness:
  "''alt'' \<in> modifiers \<and> set [''alt'', ''ctrl'', ''shift''] \<subseteq> modifiers \<and>
   distinct [''alt'', ''ctrl'', ''shift''] \<and> active_modifiers boot = [] \<and>
   ((case handle_modifier_press host_ok ''alt'' boot of
            (Inl e, s') \<Rightarrow> False
          | (Inr r, s') \<Rightarrow>
              (''alt'' \<notin> set (active_modifiers boot) \<longrightarrow>
                 set (active_modifiers s') = insert ''alt'' (set (active_modifiers boot)) \<and>
                 message r = capitalize ''alt'' @ '' is active.'') \<and>
              (''alt'' \<in> set (active_modifiers boot) \<longrightarrow>
                 set (active_modifiers s') = set (active_modifiers boot) - {''alt''} \<and>
                 message r = capitalize ''alt'' @ '' released.'') \<and>
              activeModifiers r = Some (active_modifiers s') \<and>
              (case handle_modifier_press host_ok ''alt'' s' of
                 (Inl e, s'') \<Rightarrow> False
               | (Inr r', s'') \<Rightarrow> set (active_modifiers s'') = set (active_modifiers boot)))
       \<and> (case toggle_all host_ok [''alt'', ''ctrl'', ''shift''] boot of
            Inl e \<Rightarrow> False
          | Inr s' \<Rightarrow> card (set (active_modifiers s')) = length [''alt'', ''ctrl'', ''shift'']))"
proof -
  have h1: "''alt'' \<in> modifiers" by (simp add: modifiers_def)
  have h2: "set [''alt'', ''ctrl'', ''shift''] \<subseteq> modifiers" by (simp add: modifiers_def)
  have h3: "distinct [''alt'', ''ctrl'', ''shift'']" by simp
  have h4: "active_modifiers boot = []" by (simp add: boot_fields)
  note T = toggle_modifier_membership [OF h1 h2 h3 h4, where ex = host_ok and s = boot]
  show ?thesis by (intro conjI h1 h2 h3 h4 T)
qed

text \<open>
  Claim C6.  Every operation on the modifier keys (a modifier press of the action table,
  a standard key press, a direct clearing, a timer that fires) preserves the invariant:
  the modifier set is non-empty exactly when a timer is waiting to fire, and at most one
  timer is waiting.  Whenever an operation schedules a new timer or leaves the set
  empty, no timer that was waiting before it is still waiting afterwards.
\<close>

theorem modifier_invariant_preserved:
  assumes "modifier_invariant s" and "timer_tracked s" and "apply_op ex op s = Some s'"
  shows "modifier_invariant s' \<and> timer_tracked s' \<and>
         (\<forall>t<length (timers s).
            timers s ! t = Waiting \<and>
            (length (timers s) < length (timers s') \<or> active_modifiers s' = [])
            \<longrightarrow> t < length (timers s') \<and> timers s' ! t \<noteq> Waiting)"
proof -
  from op_effect [OF assms(2,3)]
  consider
    (same) "timers s' = timers s" "active_modifiers s' = active_modifiers s"
      "modifier_key_timer s' = modifier_key_timer s"
  | (drained) "Waiting \<notin> set (timers s')" "length (timers s') = length (timers s)"
      "active_modifiers s' = []"
  | (armed) ts where "Waiting \<notin> set ts" "length ts = length (timers s)"
      "timers s' = ts @ [Waiting]" "modifier_key_timer s' = Some (length ts)"
      "active_modifiers s' \<noteq> []" "set (active_modifiers s') \<subseteq> modifiers"
    by blast
  then show ?thesis
  proof cases
    case same
    have "modifier_invariant s'" "timer_tracked s'"
      using assms(1,2) same by (simp_all add: modifier_invariant_def timer_tracked_def)
    moreover have "\<forall>t<length (timers s).
            timers s ! t = Waiting \<and>
            (length (timers s) < length (timers s') \<or> active_modifiers s' = [])
            \<longrightarrow> t < length (timers s') \<and> timers s' ! t \<noteq> Waiting"
      using assms(1) same by (auto simp: modifier_invariant_def)
    ultimately show ?thesis by blast
  next
    case drained
    have "timers s' ! t \<noteq> Waiting" if "t < length (timers s')" for t
      using that drained(1) by (metis nth_mem)
    with drained_invariant [OF drained(1,3)] drained(2) show ?thesis by simp
  next
    case armed
    have "ts ! t \<noteq> Waiting" if "t < length ts" for t
      using that armed(1) by (metis nth_mem)
    then have "\<forall>t<length (timers s). t < length (timers s') \<and> timers s' ! t \<noteq> Waiting"
      using armed(2,3) by (simp add: nth_append)
    with armed_invariant [OF armed(1,3,4,5,6)] show ?thesis by blast
  qed
qed

theorem modifier_invariant_preserved_witness:
  "modifier_invariant alt_held \<and> timer_tracked alt_held \<and>
   (\<exists>s'. apply_op host_ok (TimerFires 0) alt_held = Some s' \<and>
      modifier_invariant s' \<and> timer_tracked s' \<and>
      (\<forall>t<length (timers alt_held).
            timers alt_held ! t = Waiting \<and>
            (length (timers alt_held) < length (timers s') \<or> active_modifiers s' = [])
            \<longrightarrow> t < length (timers s') \<and> timers s' ! t \<noteq> Waiting))"
proof -
  have h1: "modifier_invariant alt_held"
    by (simp add: modifier_invariant_def alt_held_fields)
  have h2: "timer_tracked alt_held"
    by (simp add: timer_tracked_def alt_held_fields modifiers_def)
  have "\<exists>s'. apply_op host_ok (TimerFires 0) alt_held = Some s'"
    by (cases "clear_modifier_state host_ok (alt_held\<lparr>timers := [Running]\<rparr>)")
       (simp add: timer_fires_def alt_held_fields)
  then obtain s' where h3: "apply_op host_ok (TimerFires 0) alt_held = Some s'" ..
  from modifier_invariant_preserved [OF h1 h2 h3] h1 h2 h3 show ?thesis by blast
qed

text \<open>
  Claim C7.  Clearing the modifier state when no modifier is held sends no command,
  leaves the set empty and the timer reference unset, raises nothing, and a further
  clearing changes nothing; hence clearing any number of times in a row, at least once,
  has the result of clearing once.
\<close>

theorem force_clear_idempotent:
  "(active_modifiers s = [] \<longrightarrow>
      (\<exists>s'. clear_modifier_state ex s = (Inr (), s') \<and> trace s' = trace s \<and>
            active_modifiers s' = [] \<and> modifier_key_timer s' = None \<and>
            (timer_tracked s \<longrightarrow> Waiting \<notin> set (timers s')) \<and>
            clear_modifier_state ex s' = (Inr (), s')))
   \<and> (set (active_modifiers s) \<subseteq> modifiers \<longrightarrow>
        clear_repeatedly ex (Suc n) s = clear_modifier_state ex s)"
proof (intro conjI impI)
  assume e: "active_modifiers s = []"
  define s' where "s' = (cancel_modifier_timer s)\<lparr>active_modifiers := [], modifier_key_timer := None\<rparr>"
  have c: "clear_modifier_state ex s = (Inr (), s')"
    using clear_empty [OF e] by (simp add: s'_def)
  have f: "active_modifiers s' = []" "modifier_key_timer s' = None" "trace s' = trace s"
    by (simp_all add: s'_def)
  have w: "timer_tracked s \<longrightarrow> Waiting \<notin> set (timers s')"
    using cancel_no_waiting [of s] by (simp add: s'_def timer_tracked_def)
  from c f w clear_settled [OF f(1,2), of ex]
  show "\<exists>s'. clear_modifier_state ex s = (Inr (), s') \<and> trace s' = trace s \<and>
            active_modifiers s' = [] \<and> modifier_key_timer s' = None \<and>
            (timer_tracked s \<longrightarrow> Waiting \<notin> set (timers s')) \<and>
            clear_modifier_state ex s' = (Inr (), s')"
    by blast
next
  assume sub: "set (active_modifiers s) \<subseteq> modifiers"
  from clear_result [OF sub, of ex] obtain tr where
    c: "clear_modifier_state ex s =
           (Inr (), (cancel_modifier_timer (s\<lparr>trace := tr\<rparr>))
                      \<lparr>active_modifiers := [], modifier_key_timer := None\<rparr>)" by blast
  define s1 where "s1 = (cancel_modifier_timer (s\<lparr>trace := tr\<rparr>))
                      \<lparr>active_modifiers := [], modifier_key_timer := None\<rparr>"
  have f: "active_modifiers s1 = []" "modifier_key_timer s1 = None"
    by (simp_all add: s1_def)
  show "clear_repeatedly ex (Suc n) s = clear_modifier_state ex s"
    using c clear_repeatedly_settled [OF f, of ex n] by (simp add: s1_def)
qed

theorem force_clear_idempotent_witness:
  "active_modifiers boot = [] \<and> set (active_modifiers alt_held) \<subseteq> modifiers \<and>
   timer_tracked boot \<and>
   (\<exists>s'. clear_modifier_state host_ok boot = (Inr (), s') \<and> trace s' = [] \<and>
         active_modifiers s' = [] \<and> modifier_key_timer s' = None \<and>
         Waiting \<notin> set (timers s') \<and> clear_modifier_state host_ok s' = (Inr (), s')) \<and>
   clear_repeatedly host_ok (Suc 2) alt_held = clear_modifier_state host_ok alt_held"
proof -
  have h1: "active_modifiers boot = []" by (simp add: boot_fields)
  have h2: "set (active_modifiers alt_held) \<subseteq> modifiers"
    by (simp add: alt_held_fields modifiers_def)
  have h3: "timer_tracked boot"
    by (simp add: timer_tracked_def boot_fields)
  from force_clear_idempotent [of boot host_ok 2] h1 h3
  have a: "\<exists>s'. clear_modifier_state host_ok boot = (Inr (), s') \<and> trace s' = [] \<and>
         active_modifiers s' = [] \<and> modifier_key_timer s' = None \<and>
         Waiting \<notin> set (timers s') \<and> clear_modifier_state host_ok s' = (Inr (), s')"
    by (simp add: boot_fields)
  from force_clear_idempotent [of alt_held host_ok 2] h2
  have b: "clear_repeatedly host_ok (Suc 2) alt_held = clear_modifier_state host_ok alt_held"
    by blast
  from h1 h2 h3 a b show ?thesis by blast
qed

text \<open>
  Claim C1, on the code.  With Alt held (after one press of Alt on a fresh instance),
  the standard key press for Delete runs the plain command for Delete, not a combined
  Alt+Delete command, and leaves Alt in the modifier set with its timer still waiting:
  the test of \<open>_handle_standard_key_press\<close> reads \<open>active_modifier\<close>, which is always
  \<open>None\<close>.
\<close>

theorem alt_then_delete_sends_plain_key:
  "handle_standard_key_press host_ok ''delete'' ''Delete'' alt_held =
     (Inr \<lparr> success = True, message = ''Sent Delete'',
             activeModifiers = Some [''alt''], running = None \<rparr>,
      alt_held\<lparr>trace := [Exec (quoted ''nircmd.exe'' @ '' sendkey alt down''),
                          Exec (quoted ''nircmd.exe'' @ '' sendkeypress delete'')]\<rparr>)"
  by (simp add: handle_standard_key_press_def truthy_def key_reply_def execute_command_def
      host_ok_def alt_held_fields)

section \<open>Properties of the rate limiter\<close>

lemma map_of_dict_set: "map_of (dict_set k v d) = (map_of d)(k \<mapsto> v)"
  by (induction d) (auto simp: fun_eq_iff)

lemma map_of_setdefault:
  "map_of (setdefault k v d) = (case map_of d k of None \<Rightarrow> (map_of d)(k \<mapsto> v) | Some old \<Rightarrow> map_of d)"
  by (auto simp: setdefault_def fun_eq_iff map_add_def split: option.splits)

lemma rate_limit_check_result:
  "fst (rate_limit_check c now s) \<longleftrightarrow>
     int (length (prune now (client_log s c))) < MAX_REQUESTS_PER_MINUTE (config s)"
  by (auto simp: rate_limit_check_def Let_def client_log_def prune_def map_of_setdefault
      split: option.splits)

lemma rate_limit_check_log:
  "client_log (snd (rate_limit_check c now s)) c =
     (if int (length (prune now (client_log s c))) \<ge> MAX_REQUESTS_PER_MINUTE (config s)
      then prune now (client_log s c) else prune now (client_log s c) @ [now])"
  by (auto simp: rate_limit_check_def Let_def client_log_def prune_def map_of_setdefault
      map_of_dict_set split: option.splits)

lemma rate_limit_check_other:
  "c' \<noteq> c \<Longrightarrow> client_log (snd (rate_limit_check c now s)) c' = client_log s c'"
  by (auto simp: rate_limit_check_def Let_def client_log_def map_of_setdefault
      map_of_dict_set split: option.splits)

lemma rate_limit_check_config [simp]:
  "config (snd (rate_limit_check c now s)) = config s"
  by (simp add: rate_limit_check_def Let_def)


lemma prune_window:
  assumes "\<forall>e\<in>set l. e \<le> t0 - minutes 1 \<or> t0 \<le> e" "t0 \<le> t" "t \<le> t0 + seconds 1"
  shows "prune t l = filter (\<lambda>e. t0 \<le> e) l"
  unfolding prune_def
proof (rule filter_cong [OF refl])
  fix e assume "e \<in> set l"
  with assms(1) have "e \<le> t0 - minutes 1 \<or> t0 \<le> e" by blast
  with assms(2,3) show "(t - minutes 1 < e) = (t0 \<le> e)"
    by (auto simp: minutes_def seconds_def)
qed

lemma rate_limit_checks_append:
  "rate_limit_checks c (xs @ ys) s =
     (case rate_limit_checks c xs s of
        (bs, s1) \<Rightarrow> (case rate_limit_checks c ys s1 of (bs', s2) \<Rightarrow> (bs @ bs', s2)))"
  by (induction xs arbitrary: s) (simp_all split: prod.splits)

lemma burst_accepted:
  assumes "\<forall>e\<in>set (client_log s c). e \<le> t0 - minutes 1 \<or> t0 \<le> e"
    and "\<forall>t\<in>set ts. t0 \<le> t \<and> t \<le> t0 + seconds 1"
    and "int (length (filter (\<lambda>e. t0 \<le> e) (client_log s c))) + int (length ts)
           \<le> MAX_REQUESTS_PER_MINUTE (config s)"
  shows "fst (rate_limit_checks c ts s) = replicate (length ts) True
       \<and> filter (\<lambda>e. t0 \<le> e) (client_log (snd (rate_limit_checks c ts s)) c) =
           filter (\<lambda>e. t0 \<le> e) (client_log s c) @ ts
       \<and> (\<forall>e\<in>set (client_log (snd (rate_limit_checks c ts s)) c). e \<le> t0 - minutes 1 \<or> t0 \<le> e)
       \<and> config (snd (rate_limit_checks c ts s)) = config s"
  using assms
proof (induction ts arbitrary: s)
  case Nil
  then show ?case by simp
next
  case (Cons t ts)
  define s1 where "s1 = snd (rate_limit_check c t s)"
  let ?fresh = "filter (\<lambda>e. t0 \<le> e) (client_log s c)"
  have t: "t0 \<le> t" "t \<le> t0 + seconds 1" using Cons.prems(2) by simp_all
  have pr: "prune t (client_log s c) = ?fresh"
    by (rule prune_window [OF Cons.prems(1) t])
  have lt: "int (length ?fresh) < MAX_REQUESTS_PER_MINUTE (config s)"
    using Cons.prems(3) by simp
  have ok: "fst (rate_limit_check c t s)"
    using lt by (simp add: rate_limit_check_result pr)
  have log1: "client_log s1 c = ?fresh @ [t]"
    using lt by (simp add: s1_def rate_limit_check_log pr)
  have fresh1: "filter (\<lambda>e. t0 \<le> e) (client_log s1 c) = ?fresh @ [t]"
    using t(1) by (simp add: log1)
  have p1: "\<forall>e\<in>set (client_log s1 c). e \<le> t0 - minutes 1 \<or> t0 \<le> e"
    using t(1) by (auto simp: log1)
  have p2: "\<forall>t\<in>set ts. t0 \<le> t \<and> t \<le> t0 + seconds 1" using Cons.prems(2) by simp
  have p3: "int (length (filter (\<lambda>e. t0 \<le> e) (client_log s1 c))) + int (length ts)
           \<le> MAX_REQUESTS_PER_MINUTE (config s1)"
  proof -
    have "config s1 = config s" by (simp add: s1_def)
    then show ?thesis using Cons.prems(3) by (simp add: fresh1)
  qed
  note IH = Cons.IH [OF p1 p2 p3]
  have unfold: "rate_limit_checks c (t # ts) s =
      (True # fst (rate_limit_checks c ts s1), snd (rate_limit_checks c ts s1))"
    using ok by (cases "rate_limit_check c t s"; cases "rate_limit_checks c ts s1") (simp add: s1_def)
  have cfg: "config s1 = config s" by (simp add: s1_def)
  show ?case
    unfolding unfold using IH by (simp add: fresh1 cfg)
qed


lemma burst_then_rejected:
  assumes max0: "0 \<le> MAX_REQUESTS_PER_MINUTE (config s)"
    and len: "length ts = nat (MAX_REQUESTS_PER_MINUTE (config s)) + 1"
    and win: "\<forall>t\<in>set ts. t0 \<le> t \<and> t \<le> t0 + seconds 1"
    and stale: "\<forall>e\<in>set (client_log s c). e \<le> t0 - minutes 1"
  shows "fst (rate_limit_checks c ts s) =
           replicate (nat (MAX_REQUESTS_PER_MINUTE (config s))) True @ [False]"
    and "client_log (snd (rate_limit_checks c ts s)) c = butlast ts"
    and "config (snd (rate_limit_checks c ts s)) = config s"
proof -
  let ?M = "MAX_REQUESTS_PER_MINUTE (config s)"
  define xs where "xs = butlast ts"
  define tl where "tl = last ts"
  have ne: "ts \<noteq> []" using len by auto
  then have ts: "ts = xs @ [tl]" by (simp add: xs_def tl_def)
  have lx: "length xs = nat ?M" using len by (simp add: xs_def)
  have fresh0: "filter (\<lambda>e. t0 \<le> e) (client_log s c) = []"
    using stale by (auto simp: filter_empty_conv minutes_def)
  have a1: "\<forall>e\<in>set (client_log s c). e \<le> t0 - minutes 1 \<or> t0 \<le> e" using stale by blast
  have a2: "\<forall>t\<in>set xs. t0 \<le> t \<and> t \<le> t0 + seconds 1" using win ts by simp
  have a3: "int (length (filter (\<lambda>e. t0 \<le> e) (client_log s c))) + int (length xs) \<le> ?M"
    using max0 by (simp add: fresh0 lx)
  define s1 where "s1 = snd (rate_limit_checks c xs s)"
  from burst_accepted [OF a1 a2 a3]
  have b1: "fst (rate_limit_checks c xs s) = replicate (length xs) True"
    and b2: "filter (\<lambda>e. t0 \<le> e) (client_log s1 c) = xs"
    and b3: "\<forall>e\<in>set (client_log s1 c). e \<le> t0 - minutes 1 \<or> t0 \<le> e"
    and b4: "config s1 = config s"
    by (simp_all add: s1_def fresh0)
  have tl: "t0 \<le> tl" "tl \<le> t0 + seconds 1" using win ts by simp_all
  have pr: "prune tl (client_log s1 c) = xs"
    using prune_window [OF b3 tl] b2 by simp
  have full: "?M \<le> int (length (prune tl (client_log s1 c)))"
    using max0 by (simp add: pr lx)
  have rej: "\<not> fst (rate_limit_check c tl s1)"
    using full by (simp add: rate_limit_check_result b4)
  have log2: "client_log (snd (rate_limit_check c tl s1)) c = xs"
    using full by (simp add: rate_limit_check_log b4 pr)
  have run: "rate_limit_checks c ts s =
      (fst (rate_limit_checks c xs s) @ [fst (rate_limit_check c tl s1)],
       snd (rate_limit_check c tl s1))"
    unfolding ts rate_limit_checks_append s1_def
    by (cases "rate_limit_checks c xs s"; cases "rate_limit_check c tl (snd (rate_limit_checks c xs s))")
       simp
  show "fst (rate_limit_checks c ts s) = replicate (nat ?M) True @ [False]"
    using rej by (simp add: run b1 lx)
  show "client_log (snd (rate_limit_checks c ts s)) c = butlast ts"
    by (simp add: run log2 xs_def)
  show "config (snd (rate_limit_checks c ts s)) = config s"
    by (simp add: run b4)
qed

lemma prune_all:
  assumes "\<forall>e\<in>set l. e + minutes 1 \<le> t"
  shows "prune t l = []"
  using assms by (auto simp: prune_def filter_empty_conv)

lemma boot_config:
  "MAX_REQUESTS_PER_MINUTE (config boot) = 120" "request_counts boot = []"
  by (simp_all add: boot_def init_def DEFAULTS_def)

text \<open>
  Claim C4.  A check at time \<open>now\<close> keeps exactly the client's time stamps that are less
  than 60 seconds old; it answers \<open>False\<close> and records the pruned list when that list has
  at least \<open>MAX_REQUESTS_PER_MINUTE\<close> entries, and otherwise records the pruned list
  followed by \<open>now\<close> and answers \<open>True\<close>; the lists of other clients are untouched.
  Hence, for a limit that is not negative and a client with no time stamp inside the
  window, \<open>limit + 1\<close> checks within one second are all accepted except the last; and
  for a positive limit a check made when 60 seconds have passed since each of them is
  accepted.
\<close>

theorem rate_limit_sliding_window:
  "set (prune now l) = {t \<in> set l. now - t < minutes 1}
   \<and> (fst (rate_limit_check c now s) \<longleftrightarrow>
        int (length (prune now (client_log s c))) < MAX_REQUESTS_PER_MINUTE (config s))
   \<and> client_log (snd (rate_limit_check c now s)) c =
        (if int (length (prune now (client_log s c))) \<ge> MAX_REQUESTS_PER_MINUTE (config s)
         then prune now (client_log s c) else prune now (client_log s c) @ [now])
   \<and> (\<forall>c'. c' \<noteq> c \<longrightarrow> client_log (snd (rate_limit_check c now s)) c' = client_log s c')
   \<and> (0 \<le> MAX_REQUESTS_PER_MINUTE (config s)
        \<and> length ts = nat (MAX_REQUESTS_PER_MINUTE (config s)) + 1
        \<and> (\<forall>t\<in>set ts. t0 \<le> t \<and> t \<le> t0 + seconds 1)
        \<and> (\<forall>e\<in>set (client_log s c). e \<le> t0 - minutes 1)
      \<longrightarrow> fst (rate_limit_checks c ts s) =
            replicate (nat (MAX_REQUESTS_PER_MINUTE (config s))) True @ [False]
          \<and> (0 < MAX_REQUESTS_PER_MINUTE (config s) \<and> (\<forall>t\<in>set ts. t + minutes 1 \<le> t')
             \<longrightarrow> fst (rate_limit_check c t' (snd (rate_limit_checks c ts s)))))"
proof (intro conjI allI impI)
  show "set (prune now l) = {t \<in> set l. now - t < minutes 1}"
    by (auto simp: prune_def)
  show "fst (rate_limit_check c now s) \<longleftrightarrow>
        int (length (prune now (client_log s c))) < MAX_REQUESTS_PER_MINUTE (config s)"
    by (rule rate_limit_check_result)
  show "client_log (snd (rate_limit_check c now s)) c =
        (if int (length (prune now (client_log s c))) \<ge> MAX_REQUESTS_PER_MINUTE (config s)
         then prune now (client_log s c) else prune now (client_log s c) @ [now])"
    by (rule rate_limit_check_log)
  show "client_log (snd (rate_limit_check c now s)) c' = client_log s c'" if "c' \<noteq> c" for c'
    by (rule rate_limit_check_other [OF that])
next
  assume h: "0 \<le> MAX_REQUESTS_PER_MINUTE (config s)
        \<and> length ts = nat (MAX_REQUESTS_PER_MINUTE (config s)) + 1
        \<and> (\<forall>t\<in>set ts. t0 \<le> t \<and> t \<le> t0 + seconds 1)
        \<and> (\<forall>e\<in>set (client_log s c). e \<le> t0 - minutes 1)"
  then show "fst (rate_limit_checks c ts s) =
            replicate (nat (MAX_REQUESTS_PER_MINUTE (config s))) True @ [False]"
    using burst_then_rejected(1) [of s ts t0 c] by blast
  assume w: "0 < MAX_REQUESTS_PER_MINUTE (config s) \<and> (\<forall>t\<in>set ts. t + minutes 1 \<le> t')"
  define s2 where "s2 = snd (rate_limit_checks c ts s)"
  have log2: "client_log s2 c = butlast ts" and cfg: "config s2 = config s"
    using burst_then_rejected(2,3) [of s ts t0 c] h by (simp_all add: s2_def)
  have "\<forall>e\<in>set (client_log s2 c). e + minutes 1 \<le> t'"
    using w by (auto simp: log2 dest: in_set_butlastD)
  then have "prune t' (client_log s2 c) = []" by (rule prune_all)
  then show "fst (rate_limit_check c t' (snd (rate_limit_checks c ts s)))"
    using w by (simp add: rate_limit_check_result cfg s2_def [symmetric])
qed

theorem rate_limit_sliding_window_witness:
  "0 \<le> MAX_REQUESTS_PER_MINUTE (config boot)
   \<and> length (replicate 121 (7000000000::int)) = nat (MAX_REQUESTS_PER_MINUTE (config boot)) + 1
   \<and> set (replicate 121 (7000000000::int)) \<subseteq> {7000000000 .. 7000000000 + seconds 1}
   \<and> client_log boot ''10.0.0.7'' = []
   \<and> 0 < MAX_REQUESTS_PER_MINUTE (config boot)
   \<and> fst (rate_limit_checks ''10.0.0.7'' (replicate 121 7000000000) boot) =
       replicate 120 True @ [False]
   \<and> fst (rate_limit_check ''10.0.0.7'' (7000000000 + minutes 1)
            (snd (rate_limit_checks ''10.0.0.7'' (replicate 121 7000000000) boot)))"
proof -
  have h1: "0 \<le> MAX_REQUESTS_PER_MINUTE (config boot)" by (simp add: boot_config)
  have h2: "length (replicate 121 (7000000000::int)) = nat (MAX_REQUESTS_PER_MINUTE (config boot)) + 1"
    by (simp add: boot_config)
  have h3: "\<forall>t\<in>set (replicate 121 (7000000000::int)). 7000000000 \<le> t \<and> t \<le> 7000000000 + seconds 1"
    by (simp add: seconds_def)
  have h4: "\<forall>e\<in>set (client_log boot ''10.0.0.7''). e \<le> 7000000000 - minutes 1"
    by (simp add: client_log_def boot_config)
  have h5: "0 < MAX_REQUESTS_PER_MINUTE (config boot)" by (simp add: boot_config)
  have h6: "\<forall>t\<in>set (replicate 121 (7000000000::int)). t + minutes 1 \<le> 7000000000 + minutes 1"
    by simp
  have n: "nat (MAX_REQUESTS_PER_MINUTE (config boot)) = 120" by (simp add: boot_config)
  from rate_limit_sliding_window [where c = "''10.0.0.7''" and s = boot
      and ts = "replicate 121 7000000000" and ?t0.0 = 7000000000
      and t' = "7000000000 + minutes 1"] h1 h2 h3 h4 h5 h6
  have "fst (rate_limit_checks ''10.0.0.7'' (replicate 121 7000000000) boot) =
          replicate (nat (MAX_REQUESTS_PER_MINUTE (config boot))) True @ [False]
        \<and> fst (rate_limit_check ''10.0.0.7'' (7000000000 + minutes 1)
            (snd (rate_limit_checks ''10.0.0.7'' (replicate 121 7000000000) boot)))"
    by blast
  moreover have "set (replicate 121 (7000000000::int)) \<subseteq> {7000000000 .. 7000000000 + seconds 1}"
    by (simp add: seconds_def)
  moreover have "client_log boot ''10.0.0.7'' = []"
    by (simp add: client_log_def boot_config)
  ultimately show ?thesis using h1 h2 h5 unfolding n by blast
qed

section \<open>Properties of the session guard\<close>

lemma session_timeout_missing:
  "Config_getattr c ''SESSION_TIMEOUT'' = Inl (AttributeError ''SESSION_TIMEOUT'')"
  by (simp add: Config_getattr_def Config_attributes_def class_attributes_def)

lemma session_check_raises:
  assumes "app_enabled s \<or> endpoint req = ''static''"
    and "fst (rate_limit_check (remote_addr req) now_rl s)"
    and "map_of sess ''logged_in'' = Some li"
    and "map_of sess ''last_activity'' = Some (SIso t)"
  shows "fst (before_request req now_rl now_chk now_set s sess) =
           Inl (AttributeError ''SESSION_TIMEOUT'')"
    and "snd (snd (before_request req now_rl now_chk now_set s sess)) = sess"
  using assms
  by (cases "rate_limit_check (remote_addr req) now_rl s";
      auto simp: before_request_def fromisoformat_def session_timeout_missing)+

lemma boot_enabled:
  "app_enabled boot" "USERNAME (config boot) = ''admin''" "PASSWORD (config boot) = ''password''"
  by (simp_all add: boot_def init_def DEFAULTS_def)

lemma boot_first_request:
  "fst (rate_limit_check c now boot)"
  by (simp add: rate_limit_check_result client_log_def boot_config prune_def)

lemma login_keeps_last_activity:
  "map_of (snd (login req s sess)) ''last_activity'' = map_of sess ''last_activity''"
  by (simp add: login_def map_of_dict_set)

lemma no_last_activity_no_check:
  assumes "map_of sess ''last_activity'' = None"
    and "app_enabled s" "fst (rate_limit_check (remote_addr req) now_rl s)"
  shows "fst (before_request req now_rl now_chk now_set s sess) = Inr None"
    and "snd (snd (before_request req now_rl now_chk now_set s sess)) = sess"
  using assms
  by (cases "rate_limit_check (remote_addr req) now_rl s";
      auto simp: before_request_def split: option.splits)+

text \<open>
  Claim C2, on the code.  A request carries a session that is logged in and whose
  \<open>last_activity\<close> lies 31 minutes back, with the default time-out of 30 minutes.  The
  check does not clear the session and does not redirect: it ends with the exception
  \<open>AttributeError\<close>, because the configuration has the attribute
  \<open>SESSION_TIMEOUT_MINUTES\<close> and the check reads \<open>SESSION_TIMEOUT\<close>.
\<close>

theorem expired_session_check_raises:
  "fst (before_request api_request (7000000000 + minutes 31) (7000000000 + minutes 31)
          (7000000000 + minutes 31) boot
          [(''logged_in'', SBool True), (''last_activity'', SIso 7000000000)])
     = Inl (AttributeError ''SESSION_TIMEOUT'')
   \<and> snd (snd (before_request api_request (7000000000 + minutes 31) (7000000000 + minutes 31)
          (7000000000 + minutes 31) boot
          [(''logged_in'', SBool True), (''last_activity'', SIso 7000000000)]))
     = [(''logged_in'', SBool True), (''last_activity'', SIso 7000000000)]"
  using session_check_raises [of boot api_request "7000000000 + minutes 31"
      "[(''logged_in'', SBool True), (''last_activity'', SIso 7000000000)]" "SBool True" 7000000000]
  by (simp add: boot_enabled boot_first_request)

text \<open>
  Claim C3, on the code.  A login with the right user name and password sets
  \<open>logged_in\<close> and nothing else: the session has no \<open>last_activity\<close>, so the idle check of
  \<open>before_request\<close> is skipped for it; a request ten hours later goes through with the
  session as it was.
\<close>

theorem login_sets_no_last_activity:
  "login login_request boot [] = (Redirect ''index'', [(''logged_in'', SBool True)])
   \<and> map_of (snd (login login_request boot [])) ''last_activity'' = None
   \<and> fst (before_request api_request (7000000000 + minutes 600) (7000000000 + minutes 600)
            (7000000000 + minutes 600) boot (snd (login login_request boot []))) = Inr None
   \<and> snd (snd (before_request api_request (7000000000 + minutes 600) (7000000000 + minutes 600)
            (7000000000 + minutes 600) boot (snd (login login_request boot []))))
       = [(''logged_in'', SBool True)]"
proof -
  have l: "login login_request boot [] = (Redirect ''index'', [(''logged_in'', SBool True)])"
    by (simp add: login_def login_request_def boot_enabled)
  have n: "map_of (snd (login login_request boot [])) ''last_activity'' = None"
    by (simp add: l)
  from no_last_activity_no_check [OF n boot_enabled(1) boot_first_request] l n
  show ?thesis by simp
qed

section \<open>Properties of the process cache and the application toggle\<close>

text \<open>
  Claim C8.  When enumerating the processes raises, the refresh of the cache returns
  normally with the state as it was: the snapshot and the time of its capture stay, and
  a following look-up of a process name is answered from that snapshot.
\<close>

theorem probe_failure_keeps_snapshot:
  "update_running_apps_cache force now1 (Inl e) now2 s = s
   \<and> running_apps_cache (update_running_apps_cache force now1 (Inl e) now2 s) = running_apps_cache s
   \<and> last_cache_update (update_running_apps_cache force now1 (Inl e) now2 s) = last_cache_update s
   \<and> is_running p (update_running_apps_cache force now1 (Inl e) now2 s) = (p \<in> running_apps_cache s)"
  by (simp add: update_running_apps_cache_def is_running_def)

lemma forced_refresh:
  "update_running_apps_cache True now1 (Inr ps) now2 s =
     s\<lparr>running_apps_cache := set (process_names ps), last_cache_update := now2\<rparr>"
  by (simp add: update_running_apps_cache_def)

lemma refresh_trace [simp]:
  "trace (update_running_apps_cache force now1 probe now2 s) = trace s"
  by (simp add: update_running_apps_cache_def split: sum.splits)

lemma lower_taskmgr: "lower ''taskmgr.exe'' = ''taskmgr.exe''"
  by (simp add: lower_def lower_char_def ascii_uppercase_def ascii_lowercase_def)

lemma process_names_example:
  "process_names [Some ''System'', None, Some ''Taskmgr.exe''] = [''system'', ''taskmgr.exe'']"
  by (simp add: lower_def lower_char_def ascii_uppercase_def ascii_lowercase_def)

lemma title_task_manager: "title ''task_manager'' = ''Task_Manager''"
  by (simp add: title_def is_cased_def upper_char_def lower_char_def ascii_uppercase_def
      ascii_lowercase_def)

lemma boot_task_manager:
  "map_of (apps boot) ''task_manager'' =
     Some \<lparr> exe = ''Taskmgr.exe'', process_name = ''taskmgr.exe'', cmd = ''taskmgr'',
            closable = False \<rparr>"
  by (simp add: boot_def init_def define_apps_def)

text \<open>
  Claim C9.  For a configured application that is not closable and whose process is in
  the cache after the forced refresh, the toggle replies success with \<open>running\<close> true and
  the message "cannot be close" followed by the display name; it runs no command (the
  trace is as before) and the state is the one after the refresh.
\<close>

theorem non_closable_running_app_not_closed:
  assumes "map_of (apps s) app_name = Some d" and "\<not> closable d"
    and "is_running (lower (process_name d)) (update_running_apps_cache True now1 probe1 now1 s)"
  shows "app_toggle ex popen app_name probe1 now1 probe2 now2 s =
           (\<lparr> success = True, message = ''cannot be close '' @ title app_name,
              activeModifiers = None, running = Some True \<rparr>,
            update_running_apps_cache True now1 probe1 now1 s)
       \<and> trace (snd (app_toggle ex popen app_name probe1 now1 probe2 now2 s)) = trace s"
  using assms by (simp add: app_toggle_def Let_def)

theorem non_closable_running_app_not_closed_witness:
  "map_of (apps boot) ''task_manager'' =
     Some \<lparr> exe = ''Taskmgr.exe'', process_name = ''taskmgr.exe'', cmd = ''taskmgr'',
            closable = False \<rparr>
   \<and> \<not> closable \<lparr> exe = ''Taskmgr.exe'', process_name = ''taskmgr.exe'', cmd = ''taskmgr'',
            closable = False \<rparr>
   \<and> is_running ''taskmgr.exe''
       (update_running_apps_cache True 7000000000
          (Inr [Some ''System'', None, Some ''Taskmgr.exe'']) 7000000000 boot)
   \<and> app_toggle host_ok (\<lambda>c. None) ''task_manager''
        (Inr [Some ''System'', None, Some ''Taskmgr.exe'']) 7000000000
        (Inr [Some ''System'']) 7000000500 boot =
           (\<lparr> success = True, message = ''cannot be close Task_Manager'',
              activeModifiers = None, running = Some True \<rparr>,
            boot\<lparr>running_apps_cache := {''system'', ''taskmgr.exe''},
                  last_cache_update := 7000000000\<rparr>)
   \<and> trace (snd (app_toggle host_ok (\<lambda>c. None) ''task_manager''
        (Inr [Some ''System'', None, Some ''Taskmgr.exe'']) 7000000000
        (Inr [Some ''System'']) 7000000500 boot)) = []"
proof -
  let ?d = "\<lparr> exe = ''Taskmgr.exe'', process_name = ''taskmgr.exe'', cmd = ''taskmgr'',
            closable = False \<rparr>"
  let ?probe = "Inr [Some ''System'', None, Some ''Taskmgr.exe''] :: error + string option list"
  have h1: "map_of (apps boot) ''task_manager'' = Some ?d" by (rule boot_task_manager)
  have h2: "\<not> closable ?d" by simp
  have st: "update_running_apps_cache True 7000000000 ?probe 7000000000 boot =
      boot\<lparr>running_apps_cache := {''system'', ''taskmgr.exe''}, last_cache_update := 7000000000\<rparr>"
    by (simp only: forced_refresh process_names_example) simp
  have h3: "is_running (lower (process_name ?d))
      (update_running_apps_cache True 7000000000 ?probe 7000000000 boot)"
    by (simp add: st is_running_def lower_taskmgr)
  from non_closable_running_app_not_closed [OF h1 h2 h3, where ex = host_ok
      and popen = "\<lambda>c. None" and ?probe2.0 = "Inr [Some ''System'']" and ?now2.0 = 7000000500]
  show ?thesis
    using h1 h3 by (simp add: st title_task_manager lower_taskmgr boot_fields)
qed

section \<open>Properties of the volume\<close>

lemma str_int_examples: "str_int 100 = ''100''" "str_int 0 = ''0''"
  by (simp_all add: str_int_def digit_char_def str_nat.simps)

text \<open>
  Claim C10.  For every integer, \<open>_set_volume\<close> applies the value clamped to 0..100
  (below 0 gives 0, above 100 gives 100) and the success message reports the clamped
  value; whatever the audio endpoint does, a level that is set lies in 0..100; and the
  call fails only when the audio endpoint fails, never because of the value.
\<close>

theorem set_volume_clamps:
  "set_volume AudioOk v s =
     (\<lparr> success = True,
        message = ''Volume set to '' @ str_int (if v < 0 then 0 else if 100 < v then 100 else v) @ ''%'',
        activeModifiers = None, running = None \<rparr>,
      s\<lparr>trace := trace s @
           [SetMasterVolumeLevelScalar (if v < 0 then 0 else if 100 < v then 100 else v)]\<rparr>)
   \<and> (\<forall>au. \<exists>lvl. 0 \<le> lvl \<and> lvl \<le> 100 \<and>
          (trace (snd (set_volume au v s)) = trace s \<or>
           trace (snd (set_volume au v s)) = trace s @ [SetMasterVolumeLevelScalar lvl]))
   \<and> (\<forall>au. success (fst (set_volume au v s)) = (au = AudioOk))"
proof -
  have c: "max 0 (min 100 v) = (if v < 0 then 0 else if 100 < v then 100 else v)" by auto
  have r: "0 \<le> max 0 (min 100 v)" "max 0 (min 100 v) \<le> 100" by auto
  have a: "set_volume AudioOk v s =
     (\<lparr> success = True,
        message = ''Volume set to '' @ str_int (if v < 0 then 0 else if 100 < v then 100 else v) @ ''%'',
        activeModifiers = None, running = None \<rparr>,
      s\<lparr>trace := trace s @
           [SetMasterVolumeLevelScalar (if v < 0 then 0 else if 100 < v then 100 else v)]\<rparr>)"
    unfolding c [symmetric] by (simp add: set_volume_def Let_def)
  have b: "\<exists>lvl. 0 \<le> lvl \<and> lvl \<le> 100 \<and>
          (trace (snd (set_volume au v s)) = trace s \<or>
           trace (snd (set_volume au v s)) = trace s @ [SetMasterVolumeLevelScalar lvl])" for au
    using r by (cases au) (auto simp: set_volume_def Let_def simp del: max.bounded_iff min.bounded_iff)
  have d: "success (fst (set_volume au v s)) = (au = AudioOk)" for au
    by (cases au) (simp_all add: set_volume_def Let_def)
  from a b d show ?thesis by blast
qed

theorem set_volume_clamps_witness:
  "set_volume AudioOk 150 boot =
     (\<lparr> success = True, message = ''Volume set to 100%'', activeModifiers = None,
        running = None \<rparr>,
      boot\<lparr>trace := [SetMasterVolumeLevelScalar 100]\<rparr>)
   \<and> set_volume AudioOk (- 5) boot =
     (\<lparr> success = True, message = ''Volume set to 0%'', activeModifiers = None,
        running = None \<rparr>,
      boot\<lparr>trace := [SetMasterVolumeLevelScalar 0]\<rparr>)"
  using set_volume_clamps [of 150 boot] set_volume_clamps [of "- 5" boot]
  by (simp add: str_int_examples boot_fields)

end
